theory Spec2Isabelle
  imports Main "HOL-Library.AList"
begin

section \<open>Strings of the converter\<close>

text \<open>
  The converter (the JavaScript \<^verbatim>\<open>bin/cli.js\<close> and its TypeScript port) works on
  JavaScript strings. They are modelled as lists of 8-bit characters: every code unit
  is below 256. In that range the white space of \<^verbatim>\<open>String.prototype.trim\<close> and of the
  regular-expression class \<^verbatim>\<open>\s\<close> is TAB, LF, VT, FF, CR, SPACE and NBSP, and the
  line terminators that \<^verbatim>\<open>.\<close> refuses are LF and CR.
\<close>

abbreviation SQ :: char where "SQ \<equiv> CHR 0x27"
abbreviation DQ :: char where "DQ \<equiv> CHR 0x22"
abbreviation BS :: char where "BS \<equiv> CHR 0x5C"
abbreviation BT :: char where "BT \<equiv> CHR 0x60"

definition is_space :: "char \<Rightarrow> bool" where
  "is_space c \<longleftrightarrow>
     c \<in> {CHR 0x09, CHR 0x0A, CHR 0x0B, CHR 0x0C, CHR 0x0D, CHR 0x20, CHR 0xA0}"

definition is_line_terminator :: "char \<Rightarrow> bool" where
  "is_line_terminator c \<longleftrightarrow> c = CHR 0x0A \<or> c = CHR 0x0D"

definition is_digit :: "char \<Rightarrow> bool" where
  "is_digit c \<longleftrightarrow> c \<in> set ''0123456789''"

text \<open>
  \<^verbatim>\<open>toUpperCase\<close> maps \<open>a..z\<close> to \<open>A..Z\<close>. The program only ever compares an
  upper-cased string with the ASCII literals \<^verbatim>\<open>NULL\<close>, \<^verbatim>\<open>DROP TABLE\<close>,
  \<^verbatim>\<open>CREATE TABLE\<close>, \<^verbatim>\<open>INSERT INTO\<close>, \<^verbatim>\<open>PRIMARY KEY\<close>, \<^verbatim>\<open>KEY \<close>,
  \<^verbatim>\<open>UNIQUE KEY\<close>, \<^verbatim>\<open>FOREIGN KEY\<close> and \<^verbatim>\<open>ENGINE=\<close>. A character from 128 to 255
  upper-cases to a non-ASCII character or (sharp s) to \<^verbatim>\<open>SS\<close>, which occurs in none of
  these literals, so leaving those characters unchanged gives the same comparisons.
  The same function is the case folding of the \<^verbatim>\<open>/i\<close> flag on ASCII patterns.
\<close>

definition upper_char :: "char \<Rightarrow> char" where
  "upper_char c =
     (case map_of (zip ''abcdefghijklmnopqrstuvwxyz'' ''ABCDEFGHIJKLMNOPQRSTUVWXYZ'') c of
        Some u \<Rightarrow> u
      | None \<Rightarrow> c)"

definition toUpperCase :: "string \<Rightarrow> string" where
  "toUpperCase s = map upper_char s"

definition trim :: "string \<Rightarrow> string" where
  "trim s = rev (dropWhile is_space (rev (dropWhile is_space s)))"

definition startsWith :: "string \<Rightarrow> string \<Rightarrow> bool" where
  "startsWith s p \<longleftrightarrow> take (length p) s = p"

definition endsWith :: "string \<Rightarrow> string \<Rightarrow> bool" where
  "endsWith s p \<longleftrightarrow> length p \<le> length s \<and> drop (length s - length p) s = p"

fun includes_str :: "string \<Rightarrow> string \<Rightarrow> bool" where
  "includes_str [] p = (p = [])"
| "includes_str (c # cs) p = (startsWith (c # cs) p \<or> includes_str cs p)"

text \<open>\<^verbatim>\<open>s.indexOf(c)\<close> and \<^verbatim>\<open>s.lastIndexOf(c)\<close> for a one-character needle;
  \<open>None\<close> is the result \<open>-1\<close>.\<close>

fun indexOf :: "string \<Rightarrow> char \<Rightarrow> nat option" where
  "indexOf [] c = None"
| "indexOf (x # xs) c = (if x = c then Some 0 else map_option Suc (indexOf xs c))"

definition lastIndexOf :: "string \<Rightarrow> char \<Rightarrow> nat option" where
  "lastIndexOf s c =
     (case indexOf (rev s) c of None \<Rightarrow> None | Some i \<Rightarrow> Some (length s - 1 - i))"

text \<open>\<^verbatim>\<open>s.substring(a, b)\<close>: both indices are clamped to the length and swapped when
  the first is the larger.\<close>

definition substring :: "string \<Rightarrow> nat \<Rightarrow> nat \<Rightarrow> string" where
  "substring s a b =
     (let a' = min a (length s); b' = min b (length s);
          lo = min a' b'; hi = max a' b'
      in take (hi - lo) (drop lo s))"

text \<open>\<^verbatim>\<open>s.split(c)\<close> for a one-character separator: always at least one piece.\<close>

fun split_char :: "char \<Rightarrow> string \<Rightarrow> string list" where
  "split_char c [] = [[]]"
| "split_char c (x # xs) =
     (case split_char c xs of
        p # ps \<Rightarrow> if x = c then [] # p # ps else (x # p) # ps
      | [] \<Rightarrow> [[x]])"

text \<open>\<^verbatim>\<open>s.replace(/^SERVMASK_PREFIX_/, '')\<close>.\<close>

definition strip_servmask :: "string \<Rightarrow> string" where
  "strip_servmask s =
     (if startsWith s ''SERVMASK_PREFIX_'' then drop (length ''SERVMASK_PREFIX_'') s else s)"

section \<open>Literal values and \<^verbatim>\<open>cleanValue\<close>\<close>

text \<open>
  A cleaned value is \<^verbatim>\<open>null\<close>, a string or a JavaScript number, that is, a binary64
  value. The numbers that occur are written in a normal form, so that equal numbers are
  equal values: \<open>VInt i\<close> is the number with the integer value \<open>i\<close> (the zero of
  \<open>VInt 0\<close> is the positive one), \<open>VFloat m e\<close> with odd \<open>m\<close> and negative \<open>e\<close> is the
  number \<open>m * 2 ^ e\<close>, which is not an integer, \<open>VNegZero\<close> is the negative zero, and
  \<open>VInfinity\<close> and \<open>VNegInfinity\<close> are the two infinities. \<^verbatim>\<open>parseFloat('1.0')\<close> and
  \<^verbatim>\<open>parseInt('1')\<close> are the same number, \<open>VInt 1\<close>.
\<close>

datatype jsval =
  VNull | VStr string | VInt int | VFloat int int | VNegZero | VInfinity | VNegInfinity

text \<open>
  The number of a positive rational \<open>n / d\<close>: the nearest binary64 value, the one with
  the even significand when two are equally near. \<open>floor_log2 n d\<close> is the integer
  \<open>k\<close> with \<open>2 ^ k \<le> n / d < 2 ^ (k + 1)\<close>. With the exponent \<open>e = k - 52\<close>, but at
  least \<open>-1074\<close> (the subnormal numbers), the significand is \<open>n / (d * 2 ^ e)\<close> rounded
  to an integer, half to even. A rational from \<open>2 ^ 1024 - 2 ^ 970\<close> on, half way
  between the largest finite number and \<open>2 ^ 1024\<close>, gives infinity. This is the
  conversion of Node.js, which reads every digit; the language standard also lets an
  implementation read the digits after the twentieth significant one as zeros, which
  changes nothing for a literal of at most twenty digits nor for one that gives
  infinity.
\<close>

definition round_half_even :: "int \<Rightarrow> int \<Rightarrow> int" where
  "round_half_even a b =
     (let q = a div b; r = a mod b
      in if 2 * r < b then q else if b < 2 * r then q + 1 else if even q then q else q + 1)"

function log2_up :: "int \<Rightarrow> int \<Rightarrow> nat" where
  "log2_up n d = (if 0 < d \<and> 2 * d \<le> n then Suc (log2_up n (2 * d)) else 0)"
  by pat_completeness auto
termination
  by (relation "measure (\<lambda>(n, d). nat (n - d))") auto

function log2_down :: "int \<Rightarrow> int \<Rightarrow> nat" where
  "log2_down n d = (if 0 < n \<and> n < d then Suc (log2_down (2 * n) d) else 0)"
  by pat_completeness auto
termination
  by (relation "measure (\<lambda>(n, d). nat (d - n))") auto

definition floor_log2 :: "int \<Rightarrow> int \<Rightarrow> int" where
  "floor_log2 n d = (if d \<le> n then int (log2_up n d) else - int (log2_down n d))"

text \<open>\<open>Some (m, e)\<close> is the finite number \<open>m * 2 ^ e\<close>, \<open>None\<close> is infinity.\<close>

definition binary64 :: "int \<Rightarrow> int \<Rightarrow> (int \<times> int) option" where
  "binary64 n d =
     (if (2 ^ 1024 - 2 ^ 970) * d \<le> n then None
      else
        let e = max (floor_log2 n d - 52) (- 1074)
        in Some (round_half_even (n * 2 ^ nat (- e)) (d * 2 ^ nat e), e))"

text \<open>The normal form of \<open>m * 2 ^ e\<close> for negative \<open>e\<close>: factors of two move from the
  significand to the exponent.\<close>

fun reduce :: "nat \<Rightarrow> int \<Rightarrow> int \<Rightarrow> int \<times> int" where
  "reduce 0 m e = (m, e)"
| "reduce (Suc k) m e = (if e < 0 \<and> even m then reduce k (m div 2) (e + 1) else (m, e))"

definition signed :: "bool \<Rightarrow> int \<Rightarrow> int" where
  "signed neg m = (if neg then - m else m)"

text \<open>The number of \<open>n / d\<close>, or of \<open>- n / d\<close> when \<open>neg\<close> is set, for \<open>0 \<le> n\<close> and
  \<open>0 < d\<close>. A negative literal that is zero or rounds to zero is the negative zero.\<close>

definition to_number :: "bool \<Rightarrow> int \<Rightarrow> int \<Rightarrow> jsval" where
  "to_number neg n d =
     (if n = 0 then (if neg then VNegZero else VInt 0)
      else
        case binary64 n d of
          None \<Rightarrow> (if neg then VNegInfinity else VInfinity)
        | Some (m, e) \<Rightarrow>
            if m = 0 then (if neg then VNegZero else VInt 0)
            else if 0 \<le> e then VInt (signed neg (m * 2 ^ nat e))
            else
              (case reduce (nat (- e)) m e of
                 (m', e') \<Rightarrow>
                   if e' = 0 then VInt (signed neg m') else VFloat (signed neg m') e'))"

definition digit_val :: "char \<Rightarrow> int" where
  "digit_val c = (case indexOf ''0123456789'' c of Some i \<Rightarrow> int i | None \<Rightarrow> 0)"

definition digits_val :: "string \<Rightarrow> int" where
  "digits_val ds = foldl (\<lambda>acc d. 10 * acc + digit_val d) 0 ds"

text \<open>The test \<^verbatim>\<open>/^-?\d+$/.test(value)\<close>.\<close>

definition is_int_literal :: "string \<Rightarrow> bool" where
  "is_int_literal v =
     (let ds = (case v of c # cs \<Rightarrow> if c = CHR ''-'' then cs else v | [] \<Rightarrow> v)
      in ds \<noteq> [] \<and> list_all is_digit ds)"

text \<open>The test \<^verbatim>\<open>/^-?\d+\.\d+$/.test(value)\<close>.\<close>

definition is_float_literal :: "string \<Rightarrow> bool" where
  "is_float_literal v =
     (let ds = (case v of c # cs \<Rightarrow> if c = CHR ''-'' then cs else v | [] \<Rightarrow> v);
          ip = takeWhile is_digit ds; r = dropWhile is_digit ds
      in ip \<noteq> [] \<and>
         (case r of
            c # fp \<Rightarrow> c = CHR ''.'' \<and> fp \<noteq> [] \<and> list_all is_digit fp
          | [] \<Rightarrow> False))"

text \<open>
  \<^verbatim>\<open>parseInt(value)\<close> (in the TypeScript port \<^verbatim>\<open>parseInt(value, 10)\<close>) and
  \<^verbatim>\<open>parseFloat(value)\<close>. The program calls them only behind the two tests above, and
  they are modelled on the tokens that pass: an optional minus and decimal digits, for
  \<^verbatim>\<open>parseFloat\<close> with a dot among the digits. Without a radix such a token is read in
  base 10, so both calls of \<^verbatim>\<open>parseInt\<close> give the same number.
\<close>

definition parseInt :: "string \<Rightarrow> jsval" where
  "parseInt v =
     (case v of
        c # cs \<Rightarrow>
          if c = CHR ''-'' then to_number True (digits_val cs) 1
          else to_number False (digits_val v) 1
      | [] \<Rightarrow> to_number False 0 1)"

definition parseFloat :: "string \<Rightarrow> jsval" where
  "parseFloat v =
     (let neg = (case v of c # cs \<Rightarrow> c = CHR ''-'' | [] \<Rightarrow> False);
          ds = (if neg then tl v else v);
          ip = takeWhile is_digit ds; fp = tl (dropWhile is_digit ds)
      in to_number neg (digits_val (ip @ fp)) (10 ^ length fp))"

text \<open>\<^verbatim>\<open>s.replace(/\\q/g, q)\<close> for a quote character \<open>q\<close>: every backslash directly
  followed by \<open>q\<close> is replaced by \<open>q\<close>, scanning from the left without overlap.\<close>

fun unescape :: "char \<Rightarrow> string \<Rightarrow> string" where
  "unescape q (a # b # cs) =
     (if a = BS \<and> b = q then q # unescape q cs else a # unescape q (b # cs))"
| "unescape q cs = cs"

text \<open>\<^verbatim>\<open>value.slice(1, -1)\<close>: empty for strings of length below two.\<close>

definition slice_1_m1 :: "string \<Rightarrow> string" where
  "slice_1_m1 s = butlast (tl s)"

definition cleanValue :: "string \<Rightarrow> jsval" where
  "cleanValue value0 =
     (let v = trim value0 in
      if toUpperCase v = ''NULL'' then VNull
      else if (startsWith v [SQ] \<and> endsWith v [SQ]) \<or> (startsWith v [DQ] \<and> endsWith v [DQ])
        then VStr (unescape DQ (unescape SQ (slice_1_m1 v)))
      else if is_int_literal v then parseInt v
      else if is_float_literal v then parseFloat v
      else VStr v)"

section \<open>The value tokenizer \<^verbatim>\<open>parseValues\<close>\<close>

text \<open>
  The scan keeps the list of values pushed so far, the buffer \<^verbatim>\<open>current\<close>, the flag
  \<^verbatim>\<open>inString\<close>, the opening quote \<^verbatim>\<open>stringChar\<close> (a string, empty at the start) and
  \<^verbatim>\<open>depth\<close>. \<open>prev\<close> is \<^verbatim>\<open>valueString[i - 1]\<close>, \<open>None\<close> at index 0.
\<close>

record scan =
  sc_values :: "jsval list"
  sc_current :: string
  sc_inString :: bool
  sc_stringChar :: string
  sc_depth :: int

definition scan_init :: scan where
  "scan_init = \<lparr>sc_values = [], sc_current = [], sc_inString = False,
                 sc_stringChar = [], sc_depth = 0\<rparr>"

definition scan_step :: "char option \<Rightarrow> char \<Rightarrow> scan \<Rightarrow> scan" where
  "scan_step prev c st =
     (if \<not> sc_inString st then
        if c = SQ \<or> c = DQ then
          st\<lparr>sc_inString := True, sc_stringChar := [c], sc_current := sc_current st @ [c]\<rparr>
        else if c = CHR ''('' \<or> c = CHR ''{'' then
          st\<lparr>sc_depth := sc_depth st + 1, sc_current := sc_current st @ [c]\<rparr>
        else if c = CHR '')'' \<or> c = CHR ''}'' then
          st\<lparr>sc_depth := sc_depth st - 1, sc_current := sc_current st @ [c]\<rparr>
        else if c = CHR '','' \<and> sc_depth st = 0 then
          st\<lparr>sc_values := sc_values st @ [cleanValue (trim (sc_current st))],
              sc_current := []\<rparr>
        else st\<lparr>sc_current := sc_current st @ [c]\<rparr>
      else
        (let st' = st\<lparr>sc_current := sc_current st @ [c]\<rparr>
         in if [c] = sc_stringChar st \<and> prev \<noteq> Some BS
            then st'\<lparr>sc_inString := False\<rparr> else st'))"

fun scan_loop :: "char option \<Rightarrow> string \<Rightarrow> scan \<Rightarrow> scan" where
  "scan_loop prev [] st = st"
| "scan_loop prev (c # cs) st = scan_loop (Some c) cs (scan_step prev c st)"

definition parseValues :: "string \<Rightarrow> jsval list" where
  "parseValues valueString =
     (let st = scan_loop None valueString scan_init in
      if trim (sc_current st) \<noteq> []
      then sc_values st @ [cleanValue (trim (sc_current st))]
      else sc_values st)"

section \<open>Regular expressions of the parsers\<close>

text \<open>
  \<^verbatim>\<open>String.prototype.match\<close> with a pattern that has no \<^verbatim>\<open>^\<close> tries every start
  position from the left, the end of the string included; \<open>regex_search m\<close> does so for
  a matcher \<open>m\<close> of the pattern at the start of its argument.
\<close>

fun regex_search :: "(string \<Rightarrow> 'a option) \<Rightarrow> string \<Rightarrow> 'a option" where
  "regex_search m [] = m []"
| "regex_search m (c # cs) =
     (case m (c # cs) of Some r \<Rightarrow> Some r | None \<Rightarrow> regex_search m cs)"

text \<open>The class \<^verbatim>\<open>[^`\s(]\<close> of table names and the optional back-tick.\<close>

definition name_char :: "char \<Rightarrow> bool" where
  "name_char c \<longleftrightarrow> c \<noteq> BT \<and> \<not> is_space c \<and> c \<noteq> CHR ''(''"

definition opt_backtick :: "string \<Rightarrow> string" where
  "opt_backtick s = (case s of c # cs \<Rightarrow> if c = BT then cs else s | [] \<Rightarrow> s)"

text \<open>
  \<^verbatim>\<open>/CREATE TABLE\s+`?([^`\s(]+)`?\s*\(/i\<close> at one start position; the result is group 1.
  Every quantifier of this pattern is followed by something that cannot match a
  character the quantifier accepts (the name class excludes white space, the back-tick
  and the parenthesis), so a match, when there is one, is the greedy one and
  backtracking never finds another.
\<close>

definition create_table_at :: "string \<Rightarrow> string option" where
  "create_table_at s =
     (if toUpperCase (take 12 s) = ''CREATE TABLE'' then
        let r = drop 12 s in
        if takeWhile is_space r = [] then None
        else
          let r2 = opt_backtick (dropWhile is_space r);
              nm = takeWhile name_char r2; r3 = dropWhile name_char r2
          in if nm = [] then None
             else (case dropWhile is_space (opt_backtick r3) of
                     c # _ \<Rightarrow> if c = CHR ''('' then Some nm else None
                   | [] \<Rightarrow> None)
      else None)"

text \<open>
  \<^verbatim>\<open>/INSERT INTO\s+`?([^`\s(]+)`?\s*(?:\([^)]+\))?\s*VALUES/i\<close> at one start position.
  After the longest name the tail \<^verbatim>\<open>`?\s*(?:\([^)]+\))?\s*VALUES\<close> is tried with and
  without the column list. When that fails the engine gives characters of the name
  back one at a time; the tail then starts at a name character, where only
  \<^verbatim>\<open>VALUES\<close> itself can match (as in \<^verbatim>\<open>INSERT INTO tVALUES(1)\<close>).
\<close>

definition values_at :: "string \<Rightarrow> bool" where
  "values_at s \<longleftrightarrow> toUpperCase (take 6 s) = ''VALUES''"

definition paren_group :: "string \<Rightarrow> string option" where
  "paren_group s =
     (case s of
        c # cs \<Rightarrow>
          if c = CHR ''('' then
            let body = takeWhile (\<lambda>x. x \<noteq> CHR '')'') cs;
                rest = dropWhile (\<lambda>x. x \<noteq> CHR '')'') cs
            in if body \<noteq> [] \<and> rest \<noteq> [] then Some (tl rest) else None
          else None
      | [] \<Rightarrow> None)"

definition insert_tail :: "string \<Rightarrow> bool" where
  "insert_tail s =
     (let s1 = dropWhile is_space s in
      (case paren_group s1 of
         Some s2 \<Rightarrow> values_at (dropWhile is_space s2)
       | None \<Rightarrow> False) \<or> values_at s1)"

fun shorter_name :: "nat \<Rightarrow> string \<Rightarrow> string \<Rightarrow> string option" where
  "shorter_name 0 nm r3 = None"
| "shorter_name (Suc n) nm r3 =
     (if values_at (drop (Suc n) nm @ r3) then Some (take (Suc n) nm)
      else shorter_name n nm r3)"

definition insert_into_at :: "string \<Rightarrow> string option" where
  "insert_into_at s =
     (if toUpperCase (take 11 s) = ''INSERT INTO'' then
        let r = drop 11 s in
        if takeWhile is_space r = [] then None
        else
          let r2 = opt_backtick (dropWhile is_space r);
              nm = takeWhile name_char r2; r3 = dropWhile name_char r2
          in if nm = [] then None
             else if insert_tail (opt_backtick r3) then Some nm
             else shorter_name (length nm - 1) nm r3
      else None)"

text \<open>\<^verbatim>\<open>/VALUES\s*(.*)/is\<close> at one start position: with the \<^verbatim>\<open>s\<close> flag group 1 is the
  whole rest of the statement after the white space.\<close>

definition values_rest_at :: "string \<Rightarrow> string option" where
  "values_rest_at s = (if values_at s then Some (dropWhile is_space (drop 6 s)) else None)"

text \<open>The separator \<^verbatim>\<open>/\),\s*\(/\<close> at one start position; the result is the text after
  it.\<close>

definition row_sep_at :: "string \<Rightarrow> string option" where
  "row_sep_at s =
     (case s of
        a # b # cs \<Rightarrow>
          if a = CHR '')'' \<and> b = CHR '','' then
            (case dropWhile is_space cs of
               c # r \<Rightarrow> if c = CHR ''('' then Some r else None
             | [] \<Rightarrow> None)
          else None
      | _ \<Rightarrow> None)"

text \<open>\<^verbatim>\<open>valuesString.split(/\),\s*\(/)\<close>.\<close>

function split_rows :: "string \<Rightarrow> string list" where
  "split_rows [] = [[]]"
| "split_rows (c # cs) =
     (case row_sep_at (c # cs) of
        Some r \<Rightarrow> [] # split_rows r
      | None \<Rightarrow> (case split_rows cs of p # ps \<Rightarrow> (c # p) # ps | [] \<Rightarrow> [[c]]))"
  by pat_completeness auto
termination
proof (relation "measure length")
  show "wf (measure length)" by simp
next
  fix c cs r
  assume a: "row_sep_at (c # cs) = Some r"
  then obtain y cs' where s: "cs = y # cs'"
    by (cases cs) (auto simp: row_sep_at_def)
  from a s obtain z where "dropWhile is_space cs' = z # r"
    by (auto simp: row_sep_at_def split: if_splits list.splits)
  then have "length r < length (dropWhile is_space cs')" by simp
  also have "\<dots> \<le> length cs'" by (rule length_dropWhile_le)
  finally show "(r, c # cs) \<in> measure length" using s by simp
next
  fix c cs
  show "(cs, c # cs) \<in> measure length" by simp
qed

text \<open>\<^verbatim>\<open>.replace(/^\(/, '')\<close> and \<^verbatim>\<open>.replace(/\);?\s*$/, '')\<close>: the second removes, from
  the first closing parenthesis that is followed only by an optional semicolon and
  white space, everything to the end.\<close>

definition strip_open :: "string \<Rightarrow> string" where
  "strip_open s = (case s of c # cs \<Rightarrow> if c = CHR ''('' then cs else s | [] \<Rightarrow> s)"

definition close_tail :: "string \<Rightarrow> bool" where
  "close_tail cs =
     list_all is_space (case cs of c # r \<Rightarrow> if c = CHR '';'' then r else cs | [] \<Rightarrow> cs)"

fun strip_close :: "string \<Rightarrow> string" where
  "strip_close [] = []"
| "strip_close (c # cs) = (if c = CHR '')'' \<and> close_tail cs then [] else c # strip_close cs)"

text \<open>
  The tail \<^verbatim>\<open>\s+(...)\<close> of both column patterns: \<^verbatim>\<open>\s+\<close> first takes all the white
  space and then gives it back one character at a time, down to one.
\<close>

fun ws_backtrack :: "(string \<Rightarrow> 'a option) \<Rightarrow> nat \<Rightarrow> string \<Rightarrow> 'a option" where
  "ws_backtrack m 0 x = None"
| "ws_backtrack m (Suc k) x =
     (case m (drop (Suc k) x) of Some r \<Rightarrow> Some r | None \<Rightarrow> ws_backtrack m k x)"

text \<open>The TypeScript tail \<^verbatim>\<open>(.+)$\<close>: the rest, when it is non-empty and has no line
  terminator.\<close>

definition dot_plus_end :: "string \<Rightarrow> string option" where
  "dot_plus_end y =
     (if y \<noteq> [] \<and> list_all (\<lambda>c. \<not> is_line_terminator c) y then Some y else None)"

text \<open>The JavaScript tail \<^verbatim>\<open>(.+?)(?:,\s*)?$\<close>: the lazy group grows by one character at
  a time until the rest is empty or a comma followed by white space only.\<close>

definition comma_tail :: "string \<Rightarrow> bool" where
  "comma_tail r \<longleftrightarrow> r = [] \<or> (hd r = CHR '','' \<and> list_all is_space (tl r))"

fun lazy_group :: "string \<Rightarrow> string \<Rightarrow> string option" where
  "lazy_group acc [] = (if acc \<noteq> [] then Some acc else None)"
| "lazy_group acc (c # cs) =
     (if acc \<noteq> [] \<and> comma_tail (c # cs) then Some acc
      else if is_line_terminator c then None
      else lazy_group (acc @ [c]) cs)"

text \<open>
  The TypeScript column pattern \<^verbatim>\<open>/^`?([^`\s]+)`?\s+(.+)$/\<close>; the result is groups 1
  and 2. The name is the longest run of its class: after a shorter one \<^verbatim>\<open>\s+\<close> would
  have to start at a name character.
\<close>

definition ts_name_char :: "char \<Rightarrow> bool" where
  "ts_name_char c \<longleftrightarrow> c \<noteq> BT \<and> \<not> is_space c"

definition ts_column_match :: "string \<Rightarrow> (string \<times> string) option" where
  "ts_column_match t =
     (let r2 = opt_backtick t;
          nm = takeWhile ts_name_char r2; r3 = dropWhile ts_name_char r2
      in if nm = [] then None
         else
           let x = opt_backtick r3 in
           (case ws_backtrack dot_plus_end (length (takeWhile is_space x)) x of
              Some g \<Rightarrow> Some (nm, g)
            | None \<Rightarrow> None))"

text \<open>The JavaScript column pattern \<^verbatim>\<open>/^`([^`]+)`\s+(.+?)(?:,\s*)?$/\<close>: both back-ticks
  are required.\<close>

definition js_column_match :: "string \<Rightarrow> (string \<times> string) option" where
  "js_column_match t =
     (case t of
        c # r \<Rightarrow>
          if c = BT then
            let nm = takeWhile (\<lambda>x. x \<noteq> BT) r; r3 = dropWhile (\<lambda>x. x \<noteq> BT) r
            in if nm = [] \<or> r3 = [] then None
               else
                 let x = tl r3 in
                 (case ws_backtrack (lazy_group []) (length (takeWhile is_space x)) x of
                    Some g \<Rightarrow> Some (nm, g)
                  | None \<Rightarrow> None)
          else None
      | [] \<Rightarrow> None)"

section \<open>Data model\<close>

text \<open>
  A row is a JavaScript object created by \<^verbatim>\<open>{}\<close>: \<open>props\<close> are its own properties,
  listed in the order in which they were created, and \<open>has_proto\<close> tells whether its
  prototype is still \<^verbatim>\<open>Object.prototype\<close>. The list says which keys the object has and
  what they hold; it is not the order in which JavaScript enumerates them, which puts
  the keys that are array indices first, in ascending order. The assignment
  \<^verbatim>\<open>obj[k] = v\<close> creates or overwrites the own property \<open>k\<close>, except for
  \<open>k = __proto__\<close> while the prototype is in place: that assignment runs the inherited
  setter, which removes the prototype when \<open>v\<close> is \<^verbatim>\<open>null\<close> and does nothing for a
  string or a number.
\<close>

record jsrow =
  props :: "(string \<times> jsval) list"
  has_proto :: bool

definition row_empty :: jsrow where
  "row_empty = \<lparr>props = [], has_proto = True\<rparr>"

definition row_set :: "jsrow \<Rightarrow> string \<Rightarrow> jsval \<Rightarrow> jsrow" where
  "row_set obj k v =
     (if k = ''__proto__'' \<and> has_proto obj
      then (if v = VNull then obj\<lparr>has_proto := False\<rparr> else obj)
      else obj\<lparr>props := AList.update k v (props obj)\<rparr>)"

definition row_keys :: "jsrow \<Rightarrow> string set" where
  "row_keys obj = fst ` set (props obj)"

record ColumnDefinition =
  col_name :: string
  col_type :: string

record TableInfo =
  tableName :: string
  columns :: "ColumnDefinition list"
  data :: "jsrow list"

record InsertInfo =
  ins_tableName :: string
  ins_records :: "jsval list list"

text \<open>
  The converter object. \<open>tables\<close> are the own properties of \<^verbatim>\<open>this.tables\<close> (created by
  \<^verbatim>\<open>{}\<close>), listed like those of a row, \<open>tables_proto\<close> is the table that an assignment
  \<^verbatim>\<open>this.tables['__proto__'] = tableInfo\<close> has made the prototype of \<^verbatim>\<open>this.tables\<close>
  (\<open>None\<close> while the prototype is \<^verbatim>\<open>Object.prototype\<close>). \<open>limit\<close> is an integer or
  \<^verbatim>\<open>null\<close>. The fields \<^verbatim>\<open>batchSize\<close>, \<^verbatim>\<open>showMemory\<close>, \<^verbatim>\<open>skipUnparsable\<close>,
  \<^verbatim>\<open>outputMode\<close> and \<^verbatim>\<open>outputDir\<close> only steer logging and file output and are left
  out.
\<close>

record converter =
  limit :: "int option"
  processedStatements :: int
  tables :: "(string \<times> TableInfo) list"
  tables_proto :: "TableInfo option"
  currentTable :: "string option"
  insideTransaction :: bool

text \<open>The constructor: \<^verbatim>\<open>this.limit = options.limit || null\<close> turns 0 into
  \<^verbatim>\<open>null\<close>.\<close>

definition new_converter :: "int option \<Rightarrow> converter" where
  "new_converter lim =
     \<lparr>limit = (case lim of Some l \<Rightarrow> if l = 0 then None else Some l | None \<Rightarrow> None),
      processedStatements = 0, tables = [], tables_proto = None,
      currentTable = None, insideTransaction = False\<rparr>"

text \<open>\<^verbatim>\<open>this.processedStatements++\<close> on a JavaScript number that has only been
  incremented from 0: exact up to \<open>2^53\<close>, where the increment no longer changes the
  value.\<close>

definition js_incr :: "int \<Rightarrow> int" where
  "js_incr n = (if n < 2 ^ 53 then n + 1 else n)"

text \<open>\<^verbatim>\<open>this.tables[name] = tableInfo\<close>.\<close>

definition tables_set :: "converter \<Rightarrow> string \<Rightarrow> TableInfo \<Rightarrow> converter" where
  "tables_set s n ti =
     (if n = ''__proto__'' then s\<lparr>tables_proto := Some ti\<rparr>
      else s\<lparr>tables := AList.update n ti (tables s)\<rparr>)"

text \<open>
  The read \<^verbatim>\<open>this.tables[name]\<close> follows the prototype chain. \<open>OwnTable\<close> is an own
  property, \<open>ProtoTable\<close> the table installed as prototype (read under the name
  \<^verbatim>\<open>__proto__\<close>), \<open>NonTable\<close> a truthy inherited value that is not a table (a method
  of \<^verbatim>\<open>Object.prototype\<close>, \<^verbatim>\<open>Object.prototype\<close> itself, or a field of the prototype
  table), \<open>Absent\<close> a falsy result.
\<close>

datatype lookup = Absent | OwnTable TableInfo | ProtoTable TableInfo | NonTable

definition object_prototype_keys :: "string list" where
  "object_prototype_keys =
     [''constructor'', ''__defineGetter__'', ''__defineSetter__'', ''hasOwnProperty'',
      ''__lookupGetter__'', ''__lookupSetter__'', ''isPrototypeOf'',
      ''propertyIsEnumerable'', ''toString'', ''valueOf'', ''toLocaleString'']"

definition tables_get :: "converter \<Rightarrow> string \<Rightarrow> lookup" where
  "tables_get s n =
     (if n = ''__proto__'' then
        (case tables_proto s of None \<Rightarrow> NonTable | Some ti \<Rightarrow> ProtoTable ti)
      else
        (case map_of (tables s) n of
           Some ti \<Rightarrow> OwnTable ti
         | None \<Rightarrow>
             (case tables_proto s of
                Some ti \<Rightarrow>
                  if n = ''tableName'' then (if tableName ti = [] then Absent else NonTable)
                  else if n = ''columns'' \<or> n = ''data'' then NonTable
                  else if n \<in> set object_prototype_keys then NonTable
                  else Absent
              | None \<Rightarrow> if n \<in> set object_prototype_keys then NonTable else Absent)))"

section \<open>The schema parser \<^verbatim>\<open>parseCreateTable\<close>\<close>

text \<open>The skip test shared by both implementations.\<close>

definition skip_definition :: "string \<Rightarrow> bool" where
  "skip_definition trimmed \<longleftrightarrow>
     trimmed = [] \<or>
     startsWith trimmed ''--'' \<or>
     startsWith (toUpperCase trimmed) ''PRIMARY KEY'' \<or>
     startsWith (toUpperCase trimmed) ''KEY '' \<or>
     startsWith (toUpperCase trimmed) ''UNIQUE KEY'' \<or>
     startsWith (toUpperCase trimmed) ''FOREIGN KEY'' \<or>
     includes_str (toUpperCase trimmed) ''ENGINE=''"

text \<open>The text between the first \<^verbatim>\<open>(\<close> and the last \<^verbatim>\<open>)\<close>; \<open>None\<close> when one of them
  is missing.\<close>

definition columnsPart :: "string \<Rightarrow> string option" where
  "columnsPart sql =
     (case indexOf sql (CHR ''('') of
        None \<Rightarrow> None
      | Some startParen \<Rightarrow>
          (case lastIndexOf sql (CHR '')'') of
             None \<Rightarrow> None
           | Some endParen \<Rightarrow> Some (substring sql (startParen + 1) endParen)))"

subsection \<open>TypeScript\<close>

text \<open>The splitting loop: \<open>defs\<close> is \<^verbatim>\<open>columnDefs\<close>, \<open>cur\<close> is \<^verbatim>\<open>current\<close> and \<open>d\<close> is
  \<^verbatim>\<open>parenDepth\<close>.\<close>

fun split_defs :: "string \<Rightarrow> string list \<Rightarrow> string \<Rightarrow> int \<Rightarrow> string list \<times> string" where
  "split_defs [] defs cur d = (defs, cur)"
| "split_defs (c # cs) defs cur d =
     (if c = CHR ''('' then split_defs cs defs (cur @ [c]) (d + 1)
      else if c = CHR '')'' then split_defs cs defs (cur @ [c]) (d - 1)
      else if c = CHR '','' \<and> d = 0 then split_defs cs (defs @ [trim cur]) [] d
      else split_defs cs defs (cur @ [c]) d)"

definition columnDefs :: "string \<Rightarrow> string list" where
  "columnDefs part =
     (case split_defs part [] [] 0 of
        (defs, cur) \<Rightarrow> if trim cur \<noteq> [] then defs @ [trim cur] else defs)"

definition ts_column :: "string \<Rightarrow> ColumnDefinition list" where
  "ts_column colDef =
     (let trimmed = trim colDef in
      if skip_definition trimmed then []
      else (case ts_column_match trimmed of
              Some (nm, ty) \<Rightarrow> [\<lparr>col_name = nm, col_type = trim ty\<rparr>]
            | None \<Rightarrow> []))"

definition parseCreateTable_ts :: "string \<Rightarrow> TableInfo option" where
  "parseCreateTable_ts sql =
     (case regex_search create_table_at sql of
        None \<Rightarrow> None
      | Some m \<Rightarrow>
          (case columnsPart sql of
             None \<Rightarrow> None
           | Some part \<Rightarrow>
               Some \<lparr>tableName = strip_servmask m,
                     columns = concat (map ts_column (columnDefs part)),
                     data = []\<rparr>))"

subsection \<open>JavaScript\<close>

text \<open>\<^verbatim>\<open>columnType.replace(/,$/, '')\<close>.\<close>

definition strip_trailing_comma :: "string \<Rightarrow> string" where
  "strip_trailing_comma s = (if s \<noteq> [] \<and> last s = CHR '','' then butlast s else s)"

definition js_column :: "string \<Rightarrow> ColumnDefinition list" where
  "js_column line =
     (let trimmed = trim line in
      if skip_definition trimmed then []
      else (case js_column_match trimmed of
              Some (nm, ty) \<Rightarrow> [\<lparr>col_name = nm, col_type = strip_trailing_comma (trim ty)\<rparr>]
            | None \<Rightarrow> []))"

definition parseCreateTable_js :: "string \<Rightarrow> TableInfo option" where
  "parseCreateTable_js sql =
     (case regex_search create_table_at sql of
        None \<Rightarrow> None
      | Some m \<Rightarrow>
          (case columnsPart sql of
             None \<Rightarrow> None
           | Some part \<Rightarrow>
               Some \<lparr>tableName = strip_servmask m,
                     columns = concat (map js_column (split_char (CHR 0x0A) part)),
                     data = []\<rparr>))"

section \<open>The insert parser \<^verbatim>\<open>parseInsertInto\<close>\<close>

text \<open>\<^verbatim>\<open>parseValues\<close> returns an array, which is truthy even when empty, so every value
  group contributes a record.\<close>

definition parseInsertInto :: "string \<Rightarrow> InsertInfo option" where
  "parseInsertInto sql =
     (case regex_search insert_into_at sql of
        None \<Rightarrow> None
      | Some m \<Rightarrow>
          (case regex_search values_rest_at sql of
             None \<Rightarrow> None
           | Some valuesString \<Rightarrow>
               Some \<lparr>ins_tableName = strip_servmask m,
                     ins_records =
                       map (\<lambda>valueGroup. parseValues (strip_close (strip_open valueGroup)))
                         (split_rows valuesString)\<rparr>))"

section \<open>The dispatcher \<^verbatim>\<open>processStatement\<close>\<close>

text \<open>\<^verbatim>\<open>table.columns.forEach((col, index) => { if (index < record.length)
  obj[col.name] = record[index]; })\<close>.\<close>

fun build_row :: "ColumnDefinition list \<Rightarrow> jsval list \<Rightarrow> jsrow \<Rightarrow> jsrow" where
  "build_row [] vals obj = obj"
| "build_row (col # cols) [] obj = build_row cols [] obj"
| "build_row (col # cols) (v # vs) obj = build_row cols vs (row_set obj (col_name col) v)"

text \<open>The loop over \<^verbatim>\<open>insertInfo.records\<close>: one \<^verbatim>\<open>table.data.push(obj)\<close> per record.\<close>

definition push_records :: "TableInfo \<Rightarrow> jsval list list \<Rightarrow> TableInfo" where
  "push_records table records =
     foldl (\<lambda>t record. t\<lparr>data := data t @ [build_row (columns t) record row_empty]\<rparr>)
       table records"

datatype js_error = TypeError

definition limit_reached :: "converter \<Rightarrow> bool" where
  "limit_reached s =
     (case limit s of
        None \<Rightarrow> False
      | Some l \<Rightarrow> l \<noteq> 0 \<and> processedStatements s > l)"

text \<open>
  Both implementations share the dispatcher, up to the schema parser they call and the
  value returned for an empty statement (\<^verbatim>\<open>return true\<close> in TypeScript, a bare
  \<^verbatim>\<open>return\<close> in JavaScript). The result is \<open>Inl TypeError\<close> when the statement throws
  (\<^verbatim>\<open>table.columns\<close> is \<^verbatim>\<open>undefined\<close> for a value that is not a table), otherwise
  the new state and the returned value, \<open>None\<close> for \<^verbatim>\<open>undefined\<close>.
\<close>

definition processStatement_with ::
  "(string \<Rightarrow> TableInfo option) \<Rightarrow> bool option \<Rightarrow> converter \<Rightarrow> string
     \<Rightarrow> js_error + converter \<times> bool option" where
  "processStatement_with parseCreateTable emptyResult s sql0 =
     (let sql = trim sql0 in
      if sql = [] then Inr (s, emptyResult)
      else
        let s1 = s\<lparr>processedStatements := js_incr (processedStatements s)\<rparr> in
        if limit_reached s1 then Inr (s1, Some False)
        else if startsWith sql ''START TRANSACTION'' then
          Inr (s1\<lparr>insideTransaction := True\<rparr>, Some True)
        else if startsWith sql ''COMMIT'' then
          Inr (s1\<lparr>insideTransaction := False\<rparr>, Some True)
        else if startsWith (toUpperCase sql) ''DROP TABLE'' then Inr (s1, Some True)
        else if startsWith (toUpperCase sql) ''CREATE TABLE'' then
          (case parseCreateTable sql of
             Some tableInfo \<Rightarrow>
               Inr ((tables_set s1 (tableName tableInfo) tableInfo)
                      \<lparr>currentTable := Some (tableName tableInfo)\<rparr>, Some True)
           | None \<Rightarrow> Inr (s1, Some True))
        else if startsWith (toUpperCase sql) ''INSERT INTO'' then
          (case parseInsertInto sql of
             None \<Rightarrow> Inr (s1, Some True)
           | Some insertInfo \<Rightarrow>
               (case tables_get s1 (ins_tableName insertInfo) of
                  Absent \<Rightarrow> Inr (s1, Some True)
                | OwnTable table \<Rightarrow>
                    Inr (s1\<lparr>tables :=
                              AList.update (ins_tableName insertInfo)
                                (push_records table (ins_records insertInfo)) (tables s1)\<rparr>,
                         Some True)
                | ProtoTable table \<Rightarrow>
                    Inr (s1\<lparr>tables_proto :=
                              Some (push_records table (ins_records insertInfo))\<rparr>,
                         Some True)
                | NonTable \<Rightarrow>
                    if ins_records insertInfo = [] then Inr (s1, Some True)
                    else Inl TypeError))
        else Inr (s1, Some True))"

definition processStatement_ts :: "converter \<Rightarrow> string \<Rightarrow> js_error + converter \<times> bool option" where
  "processStatement_ts = processStatement_with parseCreateTable_ts (Some True)"

definition processStatement_js :: "converter \<Rightarrow> string \<Rightarrow> js_error + converter \<times> bool option" where
  "processStatement_js = processStatement_with parseCreateTable_js None"

section \<open>The in-memory drivers\<close>

text \<open>\<^verbatim>\<open>for (const statement of statements) { const shouldContinue =
  this.processStatement(statement); if (!shouldContinue) break; }\<close>: the loop goes on only
  after the result \<^verbatim>\<open>true\<close>.\<close>

fun run_statements ::
  "(converter \<Rightarrow> string \<Rightarrow> js_error + converter \<times> bool option) \<Rightarrow> converter \<Rightarrow> string list
     \<Rightarrow> js_error + converter" where
  "run_statements ps s [] = Inr s"
| "run_statements ps s (x # xs) =
     (case ps s x of
        Inl e \<Rightarrow> Inl e
      | Inr (s', r) \<Rightarrow> if r = Some True then run_statements ps s' xs else Inr s')"

text \<open>\<^verbatim>\<open>sqlToJson\<close>: the statements are the pieces between semicolons, without the blank
  ones (and, in TypeScript, trimmed and without those starting with \<^verbatim>\<open>--\<close>); the
  result carries \<^verbatim>\<open>this.tables\<close>. The byte-order mark that the TypeScript version
  removes is not an 8-bit character.\<close>

definition statements_js :: "string \<Rightarrow> string list" where
  "statements_js content = filter (\<lambda>s. trim s \<noteq> []) (split_char (CHR '';'') content)"

definition statements_ts :: "string \<Rightarrow> string list" where
  "statements_ts content =
     filter (\<lambda>s. s \<noteq> [] \<and> \<not> startsWith s ''--'') (map trim (split_char (CHR '';'') content))"

definition emitted :: "js_error + converter \<Rightarrow> js_error + (string \<times> TableInfo) list" where
  "emitted r = (case r of Inl e \<Rightarrow> Inl e | Inr s \<Rightarrow> Inr (tables s))"

definition sqlToJson_js :: "converter \<Rightarrow> string \<Rightarrow> js_error + (string \<times> TableInfo) list" where
  "sqlToJson_js s content =
     emitted (run_statements processStatement_js s (statements_js content))"

text \<open>The TypeScript loop also tests \<^verbatim>\<open>statement.length > 0\<close> before each call.\<close>

definition loop_statements_ts :: "string \<Rightarrow> string list" where
  "loop_statements_ts content =
     filter (\<lambda>statement. length statement > 0) (statements_ts content)"

definition sqlToJson_ts :: "converter \<Rightarrow> string \<Rightarrow> js_error + (string \<times> TableInfo) list" where
  "sqlToJson_ts s content =
     emitted (run_statements processStatement_ts s (loop_statements_ts content))"

section \<open>Notions used in the statements\<close>

subsection \<open>Tokenizer\<close>

text \<open>Two scan states agree on what decides the next step: the string flag, the depth
  and, inside a string, the opening quote.\<close>

definition same_mode :: "scan \<Rightarrow> scan \<Rightarrow> bool" where
  "same_mode s t \<longleftrightarrow>
     sc_inString s = sc_inString t \<and> sc_depth s = sc_depth t \<and>
     (sc_inString s \<longrightarrow> sc_stringChar s = sc_stringChar t)"

text \<open>A text is closed when the scan, started fresh, pushes nothing while reading it and
  ends outside any string at depth 0: it holds no separating comma and leaves nothing
  open.\<close>

definition closed :: "string \<Rightarrow> bool" where
  "closed a \<longleftrightarrow>
     (let st = scan_loop None a scan_init
      in sc_values st = [] \<and> \<not> sc_inString st \<and> sc_depth st = 0)"

text \<open>\<open>escaped q p body\<close>: in \<open>body\<close>, read after the character \<open>p\<close>, every quote \<open>q\<close>
  directly follows a backslash, and the character before the end is not a backslash.\<close>

fun escaped :: "char \<Rightarrow> char \<Rightarrow> string \<Rightarrow> bool" where
  "escaped q p [] \<longleftrightarrow> p \<noteq> BS"
| "escaped q p (c # cs) \<longleftrightarrow> (c = q \<longrightarrow> p = BS) \<and> escaped q c cs"

text \<open>Characters that neither open or close a string nor change the depth.\<close>

definition group_char :: "char \<Rightarrow> bool" where
  "group_char c \<longleftrightarrow> c \<notin> {SQ, DQ, CHR ''('', CHR '')'', CHR ''{'', CHR ''}''}"

subsection \<open>Normalizer, as the specification words it\<close>

text \<open>White space by character code: TAB, LF, VT, FF, CR, SPACE and NBSP. The trimmed
  token is the token without its leading and its trailing white space.\<close>

definition white_spec :: "char \<Rightarrow> bool" where
  "white_spec c \<longleftrightarrow> (of_char c :: nat) \<in> {9, 10, 11, 12, 13, 32, 160}"

definition trim_spec :: "string \<Rightarrow> string" where
  "trim_spec s =
     (let a = dropWhile white_spec s
      in take (length a - length (takeWhile white_spec (rev a))) a)"

text \<open>A case-insensitive exact match of \<^verbatim>\<open>NULL\<close>: four letters, each in either
  case.\<close>

definition null_spec :: "string \<Rightarrow> bool" where
  "null_spec v \<longleftrightarrow>
     (\<exists>a b c d. v = [a, b, c, d] \<and> a \<in> {CHR ''n'', CHR ''N''} \<and> b \<in> {CHR ''u'', CHR ''U''}
        \<and> c \<in> {CHR ''l'', CHR ''L''} \<and> d \<in> {CHR ''l'', CHR ''L''})"

definition quoted_spec :: "string \<Rightarrow> bool" where
  "quoted_spec v \<longleftrightarrow>
     v \<noteq> [] \<and> ((hd v = SQ \<and> last v = SQ) \<or> (hd v = DQ \<and> last v = DQ))"

text \<open>Rewriting the escape of the quote \<open>q\<close>: every backslash that stands directly in
  front of a \<open>q\<close> is removed, and nothing else changes.\<close>

fun drop_escapes_spec :: "char \<Rightarrow> string \<Rightarrow> string" where
  "drop_escapes_spec q [] = []"
| "drop_escapes_spec q (c # cs) =
     (if c = BS \<and> cs \<noteq> [] \<and> hd cs = q then drop_escapes_spec q cs else c # drop_escapes_spec q cs)"

text \<open>Decimal digits by character code, and the integer that a digit string denotes: the
  last digit counts once, the one before it ten times, and so on.\<close>

definition digit_spec :: "char \<Rightarrow> bool" where
  "digit_spec c \<longleftrightarrow> 48 \<le> (of_char c :: nat) \<and> (of_char c :: nat) \<le> 57"

fun decimal_rev_spec :: "string \<Rightarrow> int" where
  "decimal_rev_spec [] = 0"
| "decimal_rev_spec (c # cs) = (int (of_char c) - 48) + 10 * decimal_rev_spec cs"

definition decimal_spec :: "string \<Rightarrow> int" where
  "decimal_spec ds = decimal_rev_spec (rev ds)"

definition int_pattern_spec :: "string \<Rightarrow> bool" where
  "int_pattern_spec v \<longleftrightarrow>
     (\<exists>ds. ds \<noteq> [] \<and> list_all digit_spec ds \<and> (v = ds \<or> v = CHR ''-'' # ds))"

definition float_pattern_spec :: "string \<Rightarrow> bool" where
  "float_pattern_spec v \<longleftrightarrow>
     (\<exists>ip fp. ip \<noteq> [] \<and> fp \<noteq> [] \<and> list_all digit_spec ip \<and> list_all digit_spec fp \<and>
        (v = ip @ CHR ''.'' # fp \<or> v = CHR ''-'' # ip @ CHR ''.'' # fp))"

text \<open>The number of a token of the integer pattern, and of a token of the decimal
  pattern with the digits \<open>ip\<close> before and \<open>fp\<close> after the dot, which denotes the
  rational \<open>decimal_spec (ip @ fp) / 10 ^ length fp\<close>.\<close>

definition integer_spec :: "string \<Rightarrow> jsval" where
  "integer_spec v =
     (if hd v = CHR ''-'' then to_number True (decimal_spec (tl v)) 1
      else to_number False (decimal_spec v) 1)"

definition decimal_number_spec :: "string \<Rightarrow> jsval" where
  "decimal_number_spec v =
     (let neg = (hd v = CHR ''-''); body = (if neg then tl v else v);
          ip = takeWhile (\<lambda>c. c \<noteq> CHR ''.'') body;
          fp = drop (Suc (length ip)) body
      in to_number neg (decimal_spec (ip @ fp)) (10 ^ length fp))"

definition normalizeLiteral_spec :: "string \<Rightarrow> jsval" where
  "normalizeLiteral_spec token =
     (let v = trim_spec token in
      if null_spec v then VNull
      else if quoted_spec v then VStr (drop_escapes_spec DQ (drop_escapes_spec SQ (butlast (tl v))))
      else if int_pattern_spec v then integer_spec v
      else if float_pattern_spec v then decimal_number_spec v
      else VStr v)"

subsection \<open>Tokenizer, as the specification words it\<close>

text \<open>
  The lexical state after a prefix of the text, given with its last character first: the
  quote of the string that is open, if any, and the depth. Outside a string a quote opens
  a string, an opening parenthesis or brace raises the depth by one and a closing one
  lowers it by one. Inside a string the depth is not tracked, and only the quote that
  opened the string closes it, unless the character in front of it is a backslash.
\<close>

fun lex_state_rev_spec :: "string \<Rightarrow> char option \<times> int" where
  "lex_state_rev_spec [] = (None, 0)"
| "lex_state_rev_spec (c # r) =
     (case lex_state_rev_spec r of
        (None, d) \<Rightarrow>
          if c = SQ \<or> c = DQ then (Some c, d)
          else if c = CHR ''('' \<or> c = CHR ''{'' then (None, d + 1)
          else if c = CHR '')'' \<or> c = CHR ''}'' then (None, d - 1)
          else (None, d)
      | (Some q, d) \<Rightarrow>
          if c = q \<and> (case r of [] \<Rightarrow> True | b # _ \<Rightarrow> b \<noteq> BS) then (None, d)
          else (Some q, d))"

definition lex_state_spec :: "string \<Rightarrow> char option \<times> int" where
  "lex_state_spec p = lex_state_rev_spec (rev p)"

text \<open>A top-level comma is a comma that stands after a prefix \<open>p\<close> which leaves no string
  open and has depth 0.\<close>

definition top_comma_spec :: "string \<Rightarrow> char \<Rightarrow> bool" where
  "top_comma_spec p c \<longleftrightarrow> c = CHR '','' \<and> lex_state_spec p = (None, 0)"

text \<open>The pieces of a text between its top-level commas; \<open>p\<close> is the part of the text in
  front of the part that is cut. There is always at least one piece.\<close>

fun split_top_spec :: "string \<Rightarrow> string \<Rightarrow> string list" where
  "split_top_spec p [] = [[]]"
| "split_top_spec p (c # cs) =
     (if top_comma_spec p c then [] # split_top_spec (p @ [c]) cs
      else (case split_top_spec (p @ [c]) cs of
              x # xs \<Rightarrow> (c # x) # xs
            | [] \<Rightarrow> [[c]]))"

text \<open>The tokens: every piece in front of a top-level comma, and the piece after the last
  one unless it is blank; each trimmed.\<close>

definition tokens_spec :: "string \<Rightarrow> string list" where
  "tokens_spec s =
     (let segs = split_top_spec [] s
      in map trim_spec (butlast segs) @
         (if list_all white_spec (last segs) then [] else [trim_spec (last segs)]))"

text \<open>A scan state agrees with a lexical state when it has the same depth and the same
  open quote. \<open>prev_of p\<close> is the character in front of the position after \<open>p\<close>, and
  \<open>glue cur segs\<close> puts the buffer \<open>cur\<close> in front of the first piece.\<close>

definition agrees :: "scan \<Rightarrow> char option \<times> int \<Rightarrow> bool" where
  "agrees st m \<longleftrightarrow>
     sc_depth st = snd m \<and>
     (case fst m of
        None \<Rightarrow> \<not> sc_inString st
      | Some q \<Rightarrow> sc_inString st \<and> sc_stringChar st = [q])"

definition prev_of :: "string \<Rightarrow> char option" where
  "prev_of p = (if p = [] then None else Some (last p))"

definition glue :: "string \<Rightarrow> string list \<Rightarrow> string list" where
  "glue cur segs = (cur @ hd segs) # tl segs"

subsection \<open>Registry\<close>

text \<open>The table a lookup yields, if it yields one.\<close>

definition lookup_table :: "lookup \<Rightarrow> TableInfo option" where
  "lookup_table l =
     (case l of OwnTable ti \<Rightarrow> Some ti | ProtoTable ti \<Rightarrow> Some ti | _ \<Rightarrow> None)"

text \<open>The state without the statement counter and the limit.\<close>

definition registry_of ::
  "converter \<Rightarrow> (string \<times> TableInfo) list \<times> TableInfo option \<times> string option \<times> bool" where
  "registry_of s = (tables s, tables_proto s, currentTable s, insideTransaction s)"

definition outcome ::
  "js_error + converter
     \<Rightarrow> js_error + (string \<times> TableInfo) list \<times> TableInfo option \<times> string option \<times> bool" where
  "outcome r = (case r of Inl e \<Rightarrow> Inl e | Inr s \<Rightarrow> Inr (registry_of s))"

text \<open>The state after \<^verbatim>\<open>this.processedStatements++\<close> alone.\<close>

definition counted :: "converter \<Rightarrow> converter" where
  "counted s = s\<lparr>processedStatements := js_incr (processedStatements s)\<rparr>"

text \<open>The invariant of rows: the own keys of every row of every table, the prototype
  table included, are names of columns of that table.\<close>

definition row_ok :: "ColumnDefinition list \<Rightarrow> jsrow \<Rightarrow> bool" where
  "row_ok cols obj \<longleftrightarrow> row_keys obj \<subseteq> col_name ` set cols"

definition table_ok :: "TableInfo \<Rightarrow> bool" where
  "table_ok ti \<longleftrightarrow> (\<forall>obj \<in> set (data ti). row_ok (columns ti) obj)"

definition registry_inv :: "converter \<Rightarrow> bool" where
  "registry_inv s \<longleftrightarrow>
     (\<forall>(n, ti) \<in> set (tables s). table_ok ti) \<and>
     (\<forall>ti. tables_proto s = Some ti \<longrightarrow> table_ok ti)"

subsection \<open>Sample inputs\<close>

definition plain_create :: string where
  "plain_create = ''CREATE TABLE t (a INT, b VARCHAR(10))''"

text \<open>The first statement of the example of the README file.\<close>

definition readme_users :: string where
  "readme_users =
     ''CREATE TABLE users ('' @ [CHR 0x0A] @
     ''    id INT PRIMARY KEY AUTO_INCREMENT,'' @ [CHR 0x0A] @
     ''    name VARCHAR(255) NOT NULL,'' @ [CHR 0x0A] @
     ''    email VARCHAR(255) UNIQUE'' @ [CHR 0x0A] @ '')''"

definition orphan_insert :: string where
  "orphan_insert = ''INSERT INTO constructor VALUES (1)''"

text \<open>A converter holding a table \<open>t\<close> with columns \<open>a\<close>, \<open>b\<close> and one row.\<close>

definition sample_table :: TableInfo where
  "sample_table =
     \<lparr>tableName = ''t'',
      columns = [\<lparr>col_name = ''a'', col_type = ''INT''\<rparr>,
                 \<lparr>col_name = ''b'', col_type = ''VARCHAR(10)''\<rparr>],
      data = [\<lparr>props = [(''a'', VInt 1), (''b'', VStr ''x'')], has_proto = True\<rparr>]\<rparr>"

definition sample_converter :: converter where
  "sample_converter =
     \<lparr>limit = None, processedStatements = 2, tables = [(''t'', sample_table)],
      tables_proto = None, currentTable = Some ''t'', insideTransaction = False\<rparr>"

definition sample_script :: string where
  "sample_script =
     ''CREATE TABLE t (a INT, b VARCHAR(10)); INSERT INTO t VALUES (1,2,3),(4); CREATE TABLE t (c INT)''"

section \<open>White space, letters and digits by character code\<close>

lemma char_eq_code: "of_char d = (n::nat) \<Longrightarrow> c = d \<longleftrightarrow> of_char c = n"
  by auto

lemma is_space_spec: "is_space c \<longleftrightarrow> white_spec c"
proof -
  have e: "c = CHR 0x09 \<longleftrightarrow> of_char c = (9::nat)" "c = CHR 0x0A \<longleftrightarrow> of_char c = (10::nat)"
    "c = CHR 0x0B \<longleftrightarrow> of_char c = (11::nat)" "c = CHR 0x0C \<longleftrightarrow> of_char c = (12::nat)"
    "c = CHR 0x0D \<longleftrightarrow> of_char c = (13::nat)" "c = CHR 0x20 \<longleftrightarrow> of_char c = (32::nat)"
    "c = CHR 0xA0 \<longleftrightarrow> of_char c = (160::nat)"
    by (rule char_eq_code, simp)+
  show ?thesis unfolding is_space_def white_spec_def by (simp only: insert_iff empty_iff e)
qed

lemma digit_range: "48 \<le> n \<and> n \<le> 57 \<longleftrightarrow> n \<in> {48, 49, 50, 51, 52, 53, 54, 55, 56, 57::nat}"
  unfolding insert_iff empty_iff by presburger

lemma is_digit_spec: "is_digit c \<longleftrightarrow> digit_spec c"
proof -
  have e: "c = CHR ''0'' \<longleftrightarrow> of_char c = (48::nat)" "c = CHR ''1'' \<longleftrightarrow> of_char c = (49::nat)"
    "c = CHR ''2'' \<longleftrightarrow> of_char c = (50::nat)" "c = CHR ''3'' \<longleftrightarrow> of_char c = (51::nat)"
    "c = CHR ''4'' \<longleftrightarrow> of_char c = (52::nat)" "c = CHR ''5'' \<longleftrightarrow> of_char c = (53::nat)"
    "c = CHR ''6'' \<longleftrightarrow> of_char c = (54::nat)" "c = CHR ''7'' \<longleftrightarrow> of_char c = (55::nat)"
    "c = CHR ''8'' \<longleftrightarrow> of_char c = (56::nat)" "c = CHR ''9'' \<longleftrightarrow> of_char c = (57::nat)"
    by (rule char_eq_code, simp)+
  have "is_digit c \<longleftrightarrow> (of_char c :: nat) \<in> {48, 49, 50, 51, 52, 53, 54, 55, 56, 57}"
    by (simp only: is_digit_def list.set insert_iff empty_iff e)
  also have "\<dots> \<longleftrightarrow> digit_spec c"
    unfolding digit_spec_def by (rule digit_range [symmetric])
  finally show ?thesis .
qed

lemma rev_dropWhile_rev:
  "rev (dropWhile P (rev a)) = take (length a - length (takeWhile P (rev a))) a"
proof -
  have "rev a = takeWhile P (rev a) @ dropWhile P (rev a)" by simp
  then have "a = rev (dropWhile P (rev a)) @ rev (takeWhile P (rev a))"
    by (metis rev_append rev_rev_ident)
  then have "take (length (rev (dropWhile P (rev a)))) a = rev (dropWhile P (rev a))"
    by (metis append_eq_conv_conj)
  moreover have "length (rev (dropWhile P (rev a))) = length a - length (takeWhile P (rev a))"
    by (metis length_rev length_append takeWhile_dropWhile_id add_diff_cancel_left')
  ultimately show ?thesis by simp
qed

lemma is_space_white: "is_space = white_spec"
  by (rule ext) (rule is_space_spec)

lemma trim_spec_eq: "trim s = trim_spec s"
  unfolding trim_def trim_spec_def Let_def is_space_white by (rule rev_dropWhile_rev)

lemma trim_blank: "trim s = [] \<longleftrightarrow> list_all white_spec s"
proof -
  let ?a = "dropWhile is_space s"
  have n: "?a = []" if "\<forall>x\<in>set ?a. is_space x"
  proof (rule ccontr)
    assume ne: "?a \<noteq> []"
    then have "\<not> is_space (hd ?a)" by (rule hd_dropWhile)
    moreover from ne have "hd ?a \<in> set ?a" by (rule hd_in_set)
    ultimately show False using that by blast
  qed
  have "trim s = [] \<longleftrightarrow> dropWhile is_space (rev ?a) = []"
    unfolding trim_def by (simp only: rev_is_Nil_conv)
  also have "\<dots> \<longleftrightarrow> (\<forall>x\<in>set ?a. is_space x)"
    by (simp only: dropWhile_eq_Nil_conv set_rev)
  also have "\<dots> \<longleftrightarrow> ?a = []"
  proof
    assume "\<forall>x\<in>set ?a. is_space x"
    then show "?a = []" by (rule n)
  next
    assume "?a = []"
    then show "\<forall>x\<in>set ?a. is_space x" by (simp only: list.set ball_empty)
  qed
  also have "\<dots> \<longleftrightarrow> (\<forall>x\<in>set s. is_space x)"
    by (simp only: dropWhile_eq_Nil_conv)
  finally show ?thesis by (simp only: list_all_iff is_space_white)
qed

section \<open>The tokenizer splits at top-level commas only\<close>

lemma scan_loop_append:
  "scan_loop p (a @ b) st = scan_loop (if a = [] then p else Some (last a)) b (scan_loop p a st)"
  by (induction a arbitrary: p st) auto

lemma scan_step_values_mono: "length (sc_values st) \<le> length (sc_values (scan_step p c st))"
  by (simp add: scan_step_def Let_def)

lemma scan_loop_values_mono: "length (sc_values st) \<le> length (sc_values (scan_loop p a st))"
proof (induction a arbitrary: p st)
  case Nil
  show ?case by simp
next
  case (Cons c cs)
  have "length (sc_values st) \<le> length (sc_values (scan_step p c st))"
    by (rule scan_step_values_mono)
  also have "\<dots> \<le> length (sc_values (scan_loop (Some c) cs (scan_step p c st)))"
    by (rule Cons.IH)
  finally show ?case by simp
qed

text \<open>A step that pushes nothing appends its character, whatever the buffers hold.\<close>

lemma scan_step_nopush:
  assumes "length (sc_values (scan_step p c st0)) = length (sc_values st0)"
      and "same_mode st st0"
      and "sc_inString st \<longrightarrow> p = p'"
  shows "sc_values (scan_step p' c st) = sc_values st
       \<and> sc_current (scan_step p' c st) = sc_current st @ [c]
       \<and> same_mode (scan_step p' c st) (scan_step p c st0)"
  using assms by (auto simp: scan_step_def same_mode_def Let_def split: if_splits)

lemma scan_loop_nopush:
  assumes "length (sc_values (scan_loop p a st0)) = length (sc_values st0)"
      and "same_mode st st0"
      and "sc_inString st \<longrightarrow> p = p'"
  shows "sc_values (scan_loop p' a st) = sc_values st
       \<and> sc_current (scan_loop p' a st) = sc_current st @ a
       \<and> same_mode (scan_loop p' a st) (scan_loop p a st0)"
  using assms
proof (induction a arbitrary: p p' st st0)
  case Nil
  then show ?case by simp
next
  case (Cons c cs)
  let ?u = "scan_step p c st0"
  let ?v = "scan_step p' c st"
  have le1: "length (sc_values st0) \<le> length (sc_values ?u)"
    by (rule scan_step_values_mono)
  have le2: "length (sc_values ?u) \<le> length (sc_values (scan_loop (Some c) cs ?u))"
    by (rule scan_loop_values_mono)
  from Cons.prems(1)
  have fin: "length (sc_values (scan_loop (Some c) cs ?u)) = length (sc_values st0)"
    by simp
  from le1 le2 fin have step0: "length (sc_values ?u) = length (sc_values st0)" by linarith
  from scan_step_nopush [OF step0 Cons.prems(2) Cons.prems(3)]
  have s1: "sc_values ?v = sc_values st" and s2: "sc_current ?v = sc_current st @ [c]"
    and s3: "same_mode ?v ?u" by simp_all
  from fin step0
  have fin': "length (sc_values (scan_loop (Some c) cs ?u)) = length (sc_values ?u)"
    by simp
  from Cons.IH [OF fin' s3, of "Some c"] s1 s2 show ?case by simp
qed

text \<open>Values pushed earlier stay in front.\<close>

lemma scan_step_equiv:
  assumes "same_mode st st'" and "sc_current st = sc_current st'"
      and "sc_values st = V @ sc_values st'"
      and "sc_inString st \<longrightarrow> p = p'"
  shows "same_mode (scan_step p c st) (scan_step p' c st')
       \<and> sc_current (scan_step p c st) = sc_current (scan_step p' c st')
       \<and> sc_values (scan_step p c st) = V @ sc_values (scan_step p' c st')"
  using assms by (auto simp: scan_step_def same_mode_def Let_def split: if_splits)

lemma scan_loop_equiv:
  assumes "same_mode st st'" and "sc_current st = sc_current st'"
      and "sc_values st = V @ sc_values st'"
      and "sc_inString st \<longrightarrow> p = p'"
  shows "sc_current (scan_loop p a st) = sc_current (scan_loop p' a st')
       \<and> sc_values (scan_loop p a st) = V @ sc_values (scan_loop p' a st')"
  using assms
proof (induction a arbitrary: p p' st st')
  case Nil
  then show ?case by simp
next
  case (Cons c cs)
  let ?t = "scan_step p c st"
  let ?t' = "scan_step p' c st'"
  from scan_step_equiv [OF Cons.prems]
  have e1: "same_mode ?t ?t'" and e2: "sc_current ?t = sc_current ?t'"
    and e3: "sc_values ?t = V @ sc_values ?t'"
    by simp_all
  from Cons.IH [OF e1 e2 e3, of "Some c" "Some c"] show ?case by simp
qed

text \<open>A closed text passes through a state outside strings at depth 0 as one piece.\<close>

lemma closed_frame:
  assumes "closed a" and "\<not> sc_inString st" and "sc_depth st = 0"
  shows "sc_values (scan_loop p a st) = sc_values st
       \<and> sc_current (scan_loop p a st) = sc_current st @ a
       \<and> \<not> sc_inString (scan_loop p a st) \<and> sc_depth (scan_loop p a st) = 0"
proof -
  let ?r = "scan_loop None a scan_init"
  from assms(1) have r: "sc_values ?r = []" "\<not> sc_inString ?r" "sc_depth ?r = 0"
    by (simp_all add: closed_def Let_def)
  have len: "length (sc_values ?r) = length (sc_values scan_init)"
    using r(1) by (simp add: scan_init_def)
  have sm: "same_mode st scan_init"
    using assms(2,3) by (simp add: same_mode_def scan_init_def)
  from scan_loop_nopush [OF len sm, of p] assms(2)
  have "sc_values (scan_loop p a st) = sc_values st"
    and "sc_current (scan_loop p a st) = sc_current st @ a"
    and "same_mode (scan_loop p a st) ?r" by simp_all
  with r show ?thesis by (simp add: same_mode_def)
qed

lemma closed_current: "closed a \<Longrightarrow> sc_current (scan_loop None a scan_init) = a"
  using closed_frame [of a scan_init None] by (simp add: scan_init_def)

lemma closed_append:
  assumes "closed a" and "closed b"
  shows "closed (a @ b)"
proof -
  let ?r = "scan_loop None a scan_init"
  from assms(1) have r: "sc_values ?r = []" "\<not> sc_inString ?r" "sc_depth ?r = 0"
    by (simp_all add: closed_def Let_def)
  from closed_frame [OF assms(2) r(2) r(3), of "if a = [] then None else Some (last a)"] r
  show ?thesis by (simp add: closed_def Let_def scan_loop_append)
qed

lemma parseValues_closed:
  assumes "closed a"
  shows "parseValues a = (if trim a = [] then [] else [cleanValue (trim a)])"
  using assms closed_current [OF assms] by (simp add: parseValues_def closed_def Let_def)

lemma parseValues_split:
  assumes "closed a"
  shows "parseValues (a @ CHR '','' # b) = cleanValue (trim a) # parseValues b"
proof -
  let ?r = "scan_loop None a scan_init"
  let ?p = "if a = [] then None else Some (last a)"
  let ?t = "scan_step ?p (CHR '','') ?r"
  from assms have r: "sc_values ?r = []" "\<not> sc_inString ?r" "sc_depth ?r = 0"
    by (simp_all add: closed_def Let_def)
  have cur: "sc_current ?r = a" using assms by (rule closed_current)
  have t: "sc_values ?t = [cleanValue (trim a)] @ sc_values scan_init"
    "sc_current ?t = sc_current scan_init" "same_mode ?t scan_init"
    "\<not> sc_inString ?t"
    using r cur by (simp_all add: scan_step_def scan_init_def same_mode_def)
  from scan_loop_equiv [OF t(3) t(2) t(1), of "Some (CHR '','')" None b] t(4)
  have "sc_current (scan_loop (Some (CHR '','')) b ?t) = sc_current (scan_loop None b scan_init)"
    and "sc_values (scan_loop (Some (CHR '','')) b ?t) =
         [cleanValue (trim a)] @ sc_values (scan_loop None b scan_init)" by simp_all
  moreover
  have "scan_loop None (a @ CHR '','' # b) scan_init = scan_loop (Some (CHR '','')) b ?t"
    by (simp add: scan_loop_append)
  ultimately show ?thesis by (simp add: parseValues_def Let_def)
qed

text \<open>Inside a string nothing splits, and an escaped quote does not close it.\<close>

lemma scan_loop_in_string:
  assumes "sc_inString st" and "sc_stringChar st = [q]" and "escaped q p body"
  shows "scan_loop (Some p) (body @ [q]) st =
         st\<lparr>sc_current := sc_current st @ body @ [q], sc_inString := False\<rparr>"
  using assms
proof (induction body arbitrary: p st)
  case Nil
  then show ?case by (simp add: scan_step_def Let_def)
next
  case (Cons c cs)
  let ?t = "scan_step (Some p) c st"
  from Cons.prems have t: "?t = st\<lparr>sc_current := sc_current st @ [c]\<rparr>"
    by (auto simp: scan_step_def Let_def)
  from Cons.prems have e: "escaped q c cs" by simp
  from Cons.IH [of ?t c] t e Cons.prems(1,2) show ?case by simp
qed

lemma closed_quoted:
  assumes "q = SQ \<or> q = DQ" and "escaped q q body"
  shows "closed (q # body @ [q])"
proof -
  let ?t = "scan_step None q scan_init"
  from assms(1) have t: "?t = \<lparr>sc_values = [], sc_current = [q], sc_inString = True,
                                 sc_stringChar = [q], sc_depth = 0\<rparr>"
    by (auto simp: scan_step_def scan_init_def)
  have "scan_loop (Some q) (body @ [q]) ?t =
        ?t\<lparr>sc_current := sc_current ?t @ body @ [q], sc_inString := False\<rparr>"
    by (rule scan_loop_in_string) (simp_all add: t assms(2))
  then show ?thesis by (simp add: closed_def Let_def t)
qed

text \<open>Inside parentheses or braces a comma does not split.\<close>

lemma scan_loop_in_group:
  assumes "\<not> sc_inString st" and "sc_depth st \<noteq> 0" and "list_all group_char body"
  shows "scan_loop p body st = st\<lparr>sc_current := sc_current st @ body\<rparr>"
  using assms
proof (induction body arbitrary: p st)
  case Nil
  then show ?case by simp
next
  case (Cons c cs)
  let ?t = "scan_step p c st"
  from Cons.prems have t: "?t = st\<lparr>sc_current := sc_current st @ [c]\<rparr>"
    by (simp add: scan_step_def group_char_def)
  have "scan_loop (Some c) cs ?t = ?t\<lparr>sc_current := sc_current ?t @ cs\<rparr>"
    by (rule Cons.IH) (use Cons.prems t in simp_all)
  then show ?case by (simp add: t)
qed

lemma closed_group:
  assumes "list_all group_char body"
      and "l = CHR ''('' \<or> l = CHR ''{''" and "r = CHR '')'' \<or> r = CHR ''}''"
  shows "closed (l # body @ [r])"
proof -
  let ?t = "\<lparr>sc_values = [], sc_current = [l], sc_inString = False,
             sc_stringChar = [], sc_depth = 1\<rparr>"
  let ?p = "if body = [] then Some l else Some (last body)"
  from assms(2) have t: "scan_step None l scan_init = ?t"
    by (auto simp: scan_step_def scan_init_def)
  have b: "scan_loop (Some l) body ?t = ?t\<lparr>sc_current := sc_current ?t @ body\<rparr>"
    by (rule scan_loop_in_group) (simp_all add: assms(1))
  from assms(3) have c: "scan_step ?p r (?t\<lparr>sc_current := sc_current ?t @ body\<rparr>) =
      \<lparr>sc_values = [], sc_current = l # body @ [r], sc_inString = False,
       sc_stringChar = [], sc_depth = 0\<rparr>"
    by (auto simp: scan_step_def)
  have "scan_loop None (l # body @ [r]) scan_init =
      \<lparr>sc_values = [], sc_current = l # body @ [r], sc_inString = False,
       sc_stringChar = [], sc_depth = 0\<rparr>"
    unfolding scan_loop.simps t scan_loop_append b using c by simp
  then show ?thesis by (simp add: closed_def)
qed

lemma closed_plain:
  assumes "group_char c" and "c \<noteq> CHR '',''"
  shows "closed [c]"
  using assms by (simp add: closed_def scan_init_def scan_step_def group_char_def)

lemma parseValues_three_tokens:
  "parseValues (''1, '' @ SQ # ''a,b'' @ SQ # '', (2,3)'') = [VInt 1, VStr ''a,b'', VStr ''(2,3)'']"
  by code_simp

lemma parseValues_interior_empty: "parseValues ''1,,2'' = [VInt 1, VStr [], VInt 2]"
  by code_simp

lemma parseValues_trailing_comma: "parseValues ''1,2,'' = [VInt 1, VInt 2]"
  by code_simp

lemma cleanValue_empty: "cleanValue [] = VStr []"
  by code_simp

lemma split_top_nonempty: "split_top_spec p r \<noteq> []"
  by (induction r arbitrary: p) (auto split: list.splits)

lemma lex_state_snoc:
  "lex_state_spec (p @ [c]) =
     (case lex_state_spec p of
        (None, d) \<Rightarrow>
          if c = SQ \<or> c = DQ then (Some c, d)
          else if c = CHR ''('' \<or> c = CHR ''{'' then (None, d + 1)
          else if c = CHR '')'' \<or> c = CHR ''}'' then (None, d - 1)
          else (None, d)
      | (Some q, d) \<Rightarrow>
          if c = q \<and> prev_of p \<noteq> Some BS then (None, d) else (Some q, d))"
proof -
  have "(case rev p of [] \<Rightarrow> True | b # _ \<Rightarrow> b \<noteq> BS) \<longleftrightarrow> prev_of p \<noteq> Some BS"
    by (cases p rule: rev_cases) (simp_all add: prev_of_def)
  then show ?thesis by (simp add: lex_state_spec_def split: prod.split option.split)
qed

lemma scan_step_agrees:
  assumes "agrees st (lex_state_spec p)"
  shows "agrees (scan_step (prev_of p) c st) (lex_state_spec (p @ [c]))"
proof (cases "lex_state_spec p")
  case (Pair m d)
  show ?thesis
  proof (cases m)
    case None
    with Pair assms show ?thesis
      by (simp add: lex_state_snoc agrees_def scan_step_def)
  next
    case (Some q)
    with Pair assms show ?thesis
      by (simp add: lex_state_snoc agrees_def scan_step_def Let_def)
  qed
qed

lemma scan_step_top:
  assumes "agrees st (lex_state_spec p)" and "top_comma_spec p c"
  shows "sc_values (scan_step (prev_of p) c st) = sc_values st @ [cleanValue (trim (sc_current st))]"
    and "sc_current (scan_step (prev_of p) c st) = []"
  using assms by (simp_all add: agrees_def top_comma_spec_def scan_step_def)

lemma scan_step_inner:
  assumes "agrees st (lex_state_spec p)" and "\<not> top_comma_spec p c"
  shows "sc_values (scan_step (prev_of p) c st) = sc_values st"
    and "sc_current (scan_step (prev_of p) c st) = sc_current st @ [c]"
proof -
  obtain m d where l: "lex_state_spec p = (m, d)" by (cases "lex_state_spec p")
  show "sc_values (scan_step (prev_of p) c st) = sc_values st"
    using assms l by (cases m) (auto simp: agrees_def top_comma_spec_def scan_step_def Let_def)
  show "sc_current (scan_step (prev_of p) c st) = sc_current st @ [c]"
    using assms l by (cases m) (auto simp: agrees_def top_comma_spec_def scan_step_def Let_def)
qed

lemma prev_of_snoc: "prev_of (p @ [c]) = Some c"
  by (simp add: prev_of_def)

lemma scan_loop_split:
  assumes "agrees st (lex_state_spec p)"
  shows "sc_values (scan_loop (prev_of p) r st) =
           sc_values st @ map (\<lambda>t. cleanValue (trim t)) (butlast (glue (sc_current st) (split_top_spec p r)))
       \<and> sc_current (scan_loop (prev_of p) r st) = last (glue (sc_current st) (split_top_spec p r))"
  using assms
proof (induction r arbitrary: p st)
  case Nil
  show ?case by (simp add: glue_def)
next
  case (Cons c cs)
  let ?t = "scan_step (prev_of p) c st"
  let ?segs = "split_top_spec (p @ [c]) cs"
  have ag: "agrees ?t (lex_state_spec (p @ [c]))" using Cons.prems by (rule scan_step_agrees)
  note ih = Cons.IH [OF ag, unfolded prev_of_snoc]
  have ne: "?segs \<noteq> []" by (rule split_top_nonempty)
  then obtain x xs where segs: "?segs = x # xs" by (cases ?segs) auto
  show ?case
  proof (cases "top_comma_spec p c")
    case True
    note s = scan_step_top [OF Cons.prems True]
    from True have sp: "split_top_spec p (c # cs) = [] # ?segs" by simp
    show ?thesis using ih unfolding sp s by (simp add: glue_def segs)
  next
    case False
    note s = scan_step_inner [OF Cons.prems False]
    from False have sp: "split_top_spec p (c # cs) = (c # x) # xs" by (simp add: segs)
    show ?thesis using ih unfolding sp s by (simp add: glue_def segs)
  qed
qed

lemma parseValues_tokens: "parseValues s = map cleanValue (tokens_spec s)"
proof -
  have ag: "agrees scan_init (lex_state_spec [])" by (simp add: agrees_def scan_init_def lex_state_spec_def)
  have p: "prev_of [] = None" by (simp add: prev_of_def)
  have g: "glue (sc_current scan_init) (split_top_spec [] s) = split_top_spec [] s"
    using split_top_nonempty [of "[]" s] by (simp add: glue_def scan_init_def)
  from scan_loop_split [OF ag, of s, unfolded p g]
  have v: "sc_values (scan_loop None s scan_init) =
        map (\<lambda>t. cleanValue (trim t)) (butlast (split_top_spec [] s))"
    and c: "sc_current (scan_loop None s scan_init) = last (split_top_spec [] s)"
    by (simp_all add: scan_init_def)
  show ?thesis
    unfolding parseValues_def tokens_spec_def Let_def v c trim_blank
    by (simp add: trim_spec_eq comp_def)
qed

lemma parseValues_examples:
  "tokens_spec (''1, '' @ SQ # ''a,b'' @ SQ # '', (2,3)'') = [''1'', SQ # ''a,b'' @ [SQ], ''(2,3)'']"
  "parseValues ''((1,2),3),4'' = [VStr ''((1,2),3)'', VInt 4]"
  "parseValues (''{('' @ SQ # '')},'' @ SQ # '',1),2},3'') = [VStr (''{('' @ SQ # '')},'' @ SQ # '',1),2}''), VInt 3]"
  "parseValues (SQ # ''a'' @ BS # SQ # '',b'' @ SQ # '',2'') = [VStr (''a'' @ SQ # '',b''), VInt 2]"
  "parseValues (SQ # ''a'' @ DQ # '',b'' @ SQ # '',2'') = [VStr (''a'' @ DQ # '',b''), VInt 2]"
  "parseValues (SQ # ''a,b'') = [VStr (SQ # ''a,b'')]"
  "parseValues ''(1,2'' = [VStr ''(1,2'']"
  "parseValues ''1),2,(3,4'' = [VStr ''1),2,(3'', VInt 4]"
  by code_simp+

text \<open>
  C3, as the code has it. For every text, the values that \<^verbatim>\<open>parseValues\<close> returns are
  the cleaned tokens of the text: the text is cut at its top-level commas and nowhere
  else, a top-level comma being a comma in front of which no string is open and the
  depth is 0; every piece in front of such a comma is a token, even a blank one, and the
  piece after the last one is a token exactly when it is not blank; the tokens are
  trimmed. The text \<^verbatim>\<open>1, 'a,b', (2,3)\<close> has the three tokens \<^verbatim>\<open>1\<close>, \<^verbatim>\<open>'a,b'\<close> and
  \<^verbatim>\<open>(2,3)\<close>. Commas inside nested groups, inside a string within a group and after
  an escaped quote do not split; a string or a group that is never closed takes the rest
  of the text; a closing parenthesis without an opening one makes the depth negative, and
  the commas after it do not split until the depth is back at 0. Moreover a quoted string
  in which every inner quote follows a backslash, a group in parentheses or braces, a
  single ordinary character and any concatenation of such texts are closed, that is, no
  comma inside them splits; a comma after a closed text pushes that text as one value,
  even when it is blank; and a closed text alone is pushed exactly when it is not blank
  after trimming.
\<close>

theorem parseValues_top_level_commas:
  "parseValues s = map cleanValue (tokens_spec s)
   \<and> tokens_spec (''1, '' @ SQ # ''a,b'' @ SQ # '', (2,3)'') = [''1'', SQ # ''a,b'' @ [SQ], ''(2,3)'']
   \<and> parseValues (''1, '' @ SQ # ''a,b'' @ SQ # '', (2,3)'') = [VInt 1, VStr ''a,b'', VStr ''(2,3)'']
   \<and> parseValues ''((1,2),3),4'' = [VStr ''((1,2),3)'', VInt 4]
   \<and> parseValues (''{('' @ SQ # '')},'' @ SQ # '',1),2},3'')
       = [VStr (''{('' @ SQ # '')},'' @ SQ # '',1),2}''), VInt 3]
   \<and> parseValues (SQ # ''a'' @ BS # SQ # '',b'' @ SQ # '',2'') = [VStr (''a'' @ SQ # '',b''), VInt 2]
   \<and> parseValues (SQ # ''a'' @ DQ # '',b'' @ SQ # '',2'') = [VStr (''a'' @ DQ # '',b''), VInt 2]
   \<and> parseValues (SQ # ''a,b'') = [VStr (SQ # ''a,b'')]
   \<and> parseValues ''(1,2'' = [VStr ''(1,2'']
   \<and> parseValues ''1),2,(3,4'' = [VStr ''1),2,(3'', VInt 4]
   \<and> ((q = SQ \<or> q = DQ) \<and> escaped q q body \<longrightarrow> closed (q # body @ [q]))
   \<and> (list_all group_char grp \<longrightarrow>
        closed (CHR ''('' # grp @ '')'') \<and> closed (CHR ''{'' # grp @ ''}''))
   \<and> (group_char c \<and> c \<noteq> CHR '','' \<longrightarrow> closed [c])
   \<and> (closed a \<and> closed b \<longrightarrow> closed (a @ b))
   \<and> (closed a \<longrightarrow> parseValues (a @ CHR '','' # rest) = cleanValue (trim a) # parseValues rest)
   \<and> (closed a \<longrightarrow> parseValues a = (if trim a = [] then [] else [cleanValue (trim a)]))"
proof -
  have general: "parseValues s = map cleanValue (tokens_spec s)"
    by (rule parseValues_tokens)
  have quoted: "(q = SQ \<or> q = DQ) \<and> escaped q q body \<longrightarrow> closed (q # body @ [q])"
    using closed_quoted [of q body] by blast
  have grouped: "list_all group_char grp \<longrightarrow>
      closed (CHR ''('' # grp @ '')'') \<and> closed (CHR ''{'' # grp @ ''}'')"
    using closed_group [of grp "CHR ''(''" "CHR '')''"] closed_group [of grp "CHR ''{''" "CHR ''}''"]
    by simp
  have plain: "group_char c \<and> c \<noteq> CHR '','' \<longrightarrow> closed [c]"
    using closed_plain [of c] by blast
  have appended: "closed a \<and> closed b \<longrightarrow> closed (a @ b)"
    using closed_append [of a b] by blast
  have split: "closed a \<longrightarrow>
      parseValues (a @ CHR '','' # rest) = cleanValue (trim a) # parseValues rest"
    using parseValues_split [of a rest] by blast
  have whole: "closed a \<longrightarrow> parseValues a = (if trim a = [] then [] else [cleanValue (trim a)])"
    using parseValues_closed [of a] by blast
  show ?thesis
    by (intro conjI) (fact general parseValues_examples parseValues_three_tokens quoted grouped
        plain appended split whole)+
qed

text \<open>An instance of C3: the values of \<^verbatim>\<open>((1,2),3),4\<close> are the cleaned tokens
  \<^verbatim>\<open>((1,2),3)\<close> and \<^verbatim>\<open>4\<close>; the quoted text \<^verbatim>\<open>'a,b'\<close> is closed, so the comma after
  it is the only one that splits \<^verbatim>\<open>'a,b', (2,3)\<close>; the group \<^verbatim>\<open>(2,3)\<close>, the character
  \<^verbatim>\<open>1\<close> and their concatenation are closed, and \<^verbatim>\<open>(2,3)\<close> alone is one value.\<close>

theorem parseValues_top_level_commas_witness:
  "tokens_spec ''((1,2),3),4'' = [''((1,2),3)'', ''4'']
   \<and> parseValues ''((1,2),3),4'' = map cleanValue [''((1,2),3)'', ''4'']
   \<and> (SQ = SQ \<or> SQ = DQ) \<and> escaped SQ SQ ''a,b''
   \<and> closed (SQ # ''a,b'' @ [SQ])
   \<and> parseValues ((SQ # ''a,b'' @ [SQ]) @ CHR '','' # '' (2,3)'') = [VStr ''a,b'', VStr ''(2,3)'']
   \<and> list_all group_char ''2,3'' \<and> closed (CHR ''('' # ''2,3'' @ '')'')
   \<and> group_char (CHR ''1'') \<and> CHR ''1'' \<noteq> CHR '','' \<and> closed [CHR ''1'']
   \<and> closed ([CHR ''1''] @ CHR ''('' # ''2,3'' @ '')'')
   \<and> parseValues (CHR ''('' # ''2,3'' @ '')'') = [VStr ''(2,3)'']"
proof -
  note t = parseValues_top_level_commas
    [where q = SQ and body = "''a,b''" and a = "SQ # ''a,b'' @ [SQ]" and rest = "'' (2,3)''"]
  note u = parseValues_top_level_commas
    [where grp = "''2,3''" and c = "CHR ''1''" and a = "[CHR ''1'']"
       and b = "CHR ''('' # ''2,3'' @ '')''"]
  note v = parseValues_top_level_commas [where a = "CHR ''('' # ''2,3'' @ '')''"]
  note w = parseValues_top_level_commas [where s = "''((1,2),3),4''"]
  have r: "tokens_spec ''((1,2),3),4'' = [''((1,2),3)'', ''4'']" by code_simp
  from w have "parseValues ''((1,2),3),4'' = map cleanValue (tokens_spec ''((1,2),3),4'')"
    by (rule conjunct1)
  then have n: "parseValues ''((1,2),3),4'' = map cleanValue [''((1,2),3)'', ''4'']"
    by (simp only: r)
  have e: "escaped SQ SQ ''a,b''" by simp
  from t e have c: "closed (SQ # ''a,b'' @ [SQ])" by blast
  from t c have "parseValues ((SQ # ''a,b'' @ [SQ]) @ CHR '','' # '' (2,3)'') =
      cleanValue (trim (SQ # ''a,b'' @ [SQ])) # parseValues '' (2,3)''" by blast
  moreover have "cleanValue (trim (SQ # ''a,b'' @ [SQ])) = VStr ''a,b''" by code_simp
  moreover have "parseValues '' (2,3)'' = [VStr ''(2,3)'']" by code_simp
  ultimately have split:
    "parseValues ((SQ # ''a,b'' @ [SQ]) @ CHR '','' # '' (2,3)'') = [VStr ''a,b'', VStr ''(2,3)'']"
    by simp
  have g: "list_all group_char ''2,3''" by (simp add: group_char_def)
  from u g have cg: "closed (CHR ''('' # ''2,3'' @ '')'')" by blast
  have p: "group_char (CHR ''1'')" "CHR ''1'' \<noteq> CHR '',''" by (simp_all add: group_char_def)
  from u p have cp: "closed [CHR ''1'']" by blast
  from u cp cg have ca: "closed ([CHR ''1''] @ CHR ''('' # ''2,3'' @ '')'')" by blast
  from v cg have "parseValues (CHR ''('' # ''2,3'' @ '')'') =
      (if trim (CHR ''('' # ''2,3'' @ '')'') = [] then []
       else [cleanValue (trim (CHR ''('' # ''2,3'' @ '')''))])" by blast
  moreover have "trim (CHR ''('' # ''2,3'' @ '')'') = ''(2,3)''" by code_simp
  moreover have "cleanValue ''(2,3)'' = VStr ''(2,3)''" by code_simp
  ultimately have one: "parseValues (CHR ''('' # ''2,3'' @ '')'') = [VStr ''(2,3)'']"
    by simp
  from r n e c split g cg p cp ca one show ?thesis by blast
qed

text \<open>C3 as worded fails on a final buffer that is not empty but blank: after
  \<^verbatim>\<open>1, \<close> the buffer holds one space, and no value is pushed for it.\<close>

theorem parseValues_blank_buffer_counterexample:
  "sc_current (scan_loop None ''1, '' scan_init) = '' '' \<and> parseValues ''1, '' = [VInt 1]"
  by code_simp

text \<open>
  C10: an empty segment in front of a top-level comma is pushed and cleaned to the empty
  string, an empty segment after the last comma is dropped. So \<^verbatim>\<open>1,,2\<close> gives the
  three values 1, the empty string and 2, and \<^verbatim>\<open>1,2,\<close> gives the two values 1 and 2;
  in general, after a closed text \<open>a\<close>, two commas in a row yield an empty string
  between the value of \<open>a\<close> and the rest, and a comma at the very end yields nothing
  after the value of \<open>a\<close>.
\<close>

theorem parseValues_empty_segments:
  "parseValues ''1,,2'' = [VInt 1, VStr [], VInt 2]
   \<and> parseValues ''1,2,'' = [VInt 1, VInt 2]
   \<and> (closed a \<longrightarrow>
        parseValues (a @ '',,'' @ rest) = cleanValue (trim a) # VStr [] # parseValues rest)
   \<and> (closed a \<longrightarrow> parseValues (a @ '','') = [cleanValue (trim a)])"
proof -
  have nil: "closed []" by (simp add: closed_def scan_init_def)
  have e: "parseValues [] = []" by code_simp
  have two: "closed a \<Longrightarrow>
      parseValues (a @ '',,'' @ rest) = cleanValue (trim a) # VStr [] # parseValues rest"
    using parseValues_split [of a "CHR '','' # rest"] parseValues_split [OF nil, of rest]
    by (simp add: cleanValue_empty trim_def)
  have last: "closed a \<Longrightarrow> parseValues (a @ '','') = [cleanValue (trim a)]"
    using parseValues_split [of a "[]"] e by simp
  from two last parseValues_interior_empty parseValues_trailing_comma show ?thesis by blast
qed

text \<open>An instance of C10 with the closed text \<^verbatim>\<open>1\<close>.\<close>

theorem parseValues_empty_segments_witness:
  "closed ''1''
   \<and> parseValues (''1'' @ '',,'' @ ''2'') = [VInt 1, VStr [], VInt 2]
   \<and> parseValues (''1'' @ '','') = [VInt 1]"
proof -
  note t = parseValues_empty_segments [where a = "''1''" and rest = "''2''"]
  have c: "closed ''1''" by code_simp
  from t c have "parseValues (''1'' @ '',,'' @ ''2'') =
      cleanValue (trim ''1'') # VStr [] # parseValues ''2''"
    and "parseValues (''1'' @ '','') = [cleanValue (trim ''1'')]" by blast+
  moreover have "cleanValue (trim ''1'') = VInt 1" by code_simp
  moreover have "parseValues ''2'' = [VInt 2]" by code_simp
  ultimately show ?thesis using c by simp
qed

section \<open>The normalizer follows the specified precedence\<close>

lemma digit_val_digits:
  "digit_val (CHR ''0'') = 0" "digit_val (CHR ''1'') = 1" "digit_val (CHR ''2'') = 2"
  "digit_val (CHR ''3'') = 3" "digit_val (CHR ''4'') = 4" "digit_val (CHR ''5'') = 5"
  "digit_val (CHR ''6'') = 6" "digit_val (CHR ''7'') = 7" "digit_val (CHR ''8'') = 8"
  "digit_val (CHR ''9'') = 9"
  by code_simp+

lemma digit_val_spec:
  assumes "is_digit c"
  shows "digit_val c = int (of_char c) - 48"
proof -
  from assms have "c \<in> set ''0123456789''"
    by (simp only: is_digit_def)
  then show ?thesis
    unfolding list.set insert_iff empty_iff
    by (elim disjE) (simp_all only: digit_val_digits, simp_all)
qed

lemma upper_char_cases:
  assumes "upper_char c = u"
  shows "c = u \<or> (c, u) \<in> set (zip ''abcdefghijklmnopqrstuvwxyz'' ''ABCDEFGHIJKLMNOPQRSTUVWXYZ'')"
proof (cases "map_of (zip ''abcdefghijklmnopqrstuvwxyz'' ''ABCDEFGHIJKLMNOPQRSTUVWXYZ'') c")
  case None
  with assms have "c = u" unfolding upper_char_def by (simp only: option.case)
  then show ?thesis by (rule disjI1)
next
  case (Some w)
  with assms have "w = u" unfolding upper_char_def by (simp only: option.case)
  with Some show ?thesis by (metis map_of_SomeD)
qed

lemma upper_char_N: "upper_char c = CHR ''N'' \<longleftrightarrow> c = CHR ''n'' \<or> c = CHR ''N''"
proof
  assume "upper_char c = CHR ''N''"
  from upper_char_cases [OF this] show "c = CHR ''n'' \<or> c = CHR ''N''" by auto
next
  have "upper_char (CHR ''n'') = CHR ''N''" "upper_char (CHR ''N'') = CHR ''N''" by code_simp+
  then show "c = CHR ''n'' \<or> c = CHR ''N'' \<Longrightarrow> upper_char c = CHR ''N''" by blast
qed

lemma upper_char_U: "upper_char c = CHR ''U'' \<longleftrightarrow> c = CHR ''u'' \<or> c = CHR ''U''"
proof
  assume "upper_char c = CHR ''U''"
  from upper_char_cases [OF this] show "c = CHR ''u'' \<or> c = CHR ''U''" by auto
next
  have "upper_char (CHR ''u'') = CHR ''U''" "upper_char (CHR ''U'') = CHR ''U''" by code_simp+
  then show "c = CHR ''u'' \<or> c = CHR ''U'' \<Longrightarrow> upper_char c = CHR ''U''" by blast
qed

lemma upper_char_L: "upper_char c = CHR ''L'' \<longleftrightarrow> c = CHR ''l'' \<or> c = CHR ''L''"
proof
  assume "upper_char c = CHR ''L''"
  from upper_char_cases [OF this] show "c = CHR ''l'' \<or> c = CHR ''L''" by auto
next
  have "upper_char (CHR ''l'') = CHR ''L''" "upper_char (CHR ''L'') = CHR ''L''" by code_simp+
  then show "c = CHR ''l'' \<or> c = CHR ''L'' \<Longrightarrow> upper_char c = CHR ''L''" by blast
qed

lemma null_len: "toUpperCase v = ''NULL'' \<Longrightarrow> length v = 4"
proof -
  assume "toUpperCase v = ''NULL''"
  then have "length (toUpperCase v) = 4" by simp
  then show ?thesis by (simp add: toUpperCase_def)
qed

lemma null_spec_iff: "toUpperCase v = ''NULL'' \<longleftrightarrow> null_spec v"
proof
  assume a: "toUpperCase v = ''NULL''"
  then have "length v = 4" by (rule null_len)
  then obtain a' b c d where v: "v = [a', b, c, d]"
    by (auto simp: length_Suc_conv numeral_eq_Suc)
  with a show "null_spec v"
    by (simp add: toUpperCase_def null_spec_def upper_char_N upper_char_U upper_char_L)
next
  assume "null_spec v"
  then show "toUpperCase v = ''NULL''"
    by (auto simp: toUpperCase_def null_spec_def upper_char_N upper_char_U upper_char_L)
qed

lemma unescape_spec:
  assumes "q \<noteq> BS"
  shows "unescape q s = drop_escapes_spec q s"
  using assms
proof (induction q s rule: unescape.induct)
  case (1 q a b cs)
  then show ?case by (cases cs) auto
qed simp_all

lemma digits_val_snoc: "digits_val (ds @ [d]) = 10 * digits_val ds + digit_val d"
  by (simp add: digits_val_def)

lemma digits_val_spec: "list_all is_digit ds \<Longrightarrow> digits_val ds = decimal_spec ds"
proof (induction ds rule: rev_induct)
  case Nil
  show ?case by (simp add: digits_val_def decimal_spec_def)
next
  case (snoc d ds)
  then have "digits_val ds = decimal_spec ds" and "is_digit d" by simp_all
  then show ?case
    by (simp add: digits_val_snoc digit_val_spec decimal_spec_def)
qed

lemma is_digit_fun: "is_digit = digit_spec"
  by (rule ext) (rule is_digit_spec)

text \<open>The exponent search brackets the rational between two powers of two.\<close>

lemma log2_up_bounds:
  "0 < d \<Longrightarrow> d \<le> n \<Longrightarrow> d * 2 ^ log2_up n d \<le> n \<and> n < d * 2 ^ Suc (log2_up n d)"
proof (induction n d rule: log2_up.induct)
  case (1 n d)
  show ?case
  proof (cases "2 * d \<le> n")
    case True
    with 1 have "2 * d * 2 ^ log2_up n (2 * d) \<le> n \<and> n < 2 * d * 2 ^ Suc (log2_up n (2 * d))"
      by simp
    moreover from True 1 have "log2_up n d = Suc (log2_up n (2 * d))"
      by (subst log2_up.simps) simp
    ultimately show ?thesis by (simp add: mult.assoc mult.left_commute)
  next
    case False
    with 1 have "log2_up n d = 0" by (subst log2_up.simps) simp
    with False 1 show ?thesis by simp
  qed
qed

lemma log2_down_bounds:
  "0 < n \<Longrightarrow> n < d \<Longrightarrow> d \<le> n * 2 ^ log2_down n d \<and> n * 2 ^ log2_down n d < 2 * d"
proof (induction n d rule: log2_down.induct)
  case (1 n d)
  from 1 have s: "log2_down n d = Suc (log2_down (2 * n) d)"
    by (subst log2_down.simps) simp
  show ?case
  proof (cases "2 * n < d")
    case True
    with 1 have "d \<le> 2 * n * 2 ^ log2_down (2 * n) d \<and> 2 * n * 2 ^ log2_down (2 * n) d < 2 * d"
      by simp
    then show ?thesis unfolding s by (simp add: mult.assoc mult.left_commute)
  next
    case False
    then have "log2_down (2 * n) d = 0" by (subst log2_down.simps) simp
    with False 1 show ?thesis unfolding s by simp
  qed
qed

text \<open>The significand is an integer nearest to the scaled rational, and even when two
  integers are equally near.\<close>

lemma round_half_even_nearest:
  assumes "0 < b"
  shows "\<bar>2 * (round_half_even a b * b - a)\<bar> \<le> b"
    and "\<bar>2 * (round_half_even a b * b - a)\<bar> = b \<longrightarrow> even (round_half_even a b)"
proof -
  define q r where "q = a div b" and "r = a mod b"
  have a: "a = q * b + r" by (simp add: q_def r_def)
  from assms have r: "0 \<le> r" "r < b" by (simp_all add: r_def)
  have up: "(q + 1) * b - a = b - r" unfolding a by (simp add: algebra_simps)
  have dn: "q * b - a = - r" unfolding a by simp
  have m: "round_half_even a b =
      (if 2 * r < b then q else if b < 2 * r then q + 1 else if even q then q else q + 1)"
    by (simp add: round_half_even_def q_def r_def Let_def)
  define e where "e = round_half_even a b * b - a"
  have e: "(e = - r \<and> (2 * r < b \<or> 2 * r = b \<and> even (round_half_even a b)))
         \<or> (e = b - r \<and> (b < 2 * r \<or> 2 * r = b \<and> even (round_half_even a b)))"
    unfolding e_def m using up dn by auto
  from e r show "\<bar>2 * (round_half_even a b * b - a)\<bar> \<le> b"
    unfolding e_def [symmetric] by auto
  from e r show "\<bar>2 * (round_half_even a b * b - a)\<bar> = b \<longrightarrow> even (round_half_even a b)"
    unfolding e_def [symmetric] by auto
qed

lemma reduce_exact: "reduce j (n * 2 ^ j) (- int j) = (n, 0)"
proof (induction j)
  case 0
  show ?case by simp
next
  case (Suc j)
  have "n * 2 ^ Suc j div 2 = n * 2 ^ j" by simp
  moreover have "- int (Suc j) + 1 = - int j" by simp
  ultimately show ?case using Suc by simp
qed

lemma round_half_even_one: "round_half_even a 1 = a"
  by (simp add: round_half_even_def)

lemma to_number_exact:
  assumes "0 < n" and "n \<le> 2 ^ 53"
  shows "to_number neg n 1 = VInt (signed neg n)"
proof (cases "n = 2 ^ 53")
  case True
  have "to_number True (2 ^ 53) 1 = VInt (signed True (2 ^ 53))" by code_simp
  moreover have "to_number False (2 ^ 53) 1 = VInt (signed False (2 ^ 53))" by code_simp
  ultimately show ?thesis unfolding True by (cases neg) simp_all
next
  case False
  with assms have lt: "n < 2 ^ 53" by simp
  define k where "k = log2_up n 1"
  from log2_up_bounds [of 1 n] assms have b: "2 ^ k \<le> n" by (simp add: k_def)
  with lt have "(2::int) ^ k < 2 ^ 53" by linarith
  moreover have "(1::int) < 2" by simp
  ultimately have k: "k < 53" by (simp only: power_strict_increasing_iff)
  define j where "j = 52 - k"
  have fl: "floor_log2 n 1 = int k" using assms by (simp add: floor_log2_def k_def)
  have e: "max (floor_log2 n 1 - 52) (- 1074) = - int j" using k by (simp add: fl j_def)
  have big: "\<not> (2 ^ 1024 - 2 ^ 970) * 1 \<le> n" using lt by simp
  have b64: "binary64 n 1 = Some (n * 2 ^ j, - int j)"
    unfolding binary64_def Let_def e using big by (simp add: round_half_even_one)
  from assms have nz: "n \<noteq> 0" "n * 2 ^ j \<noteq> 0" by simp_all
  show ?thesis
  proof (cases "j = 0")
    case True
    then show ?thesis using nz b64 by (simp add: to_number_def)
  next
    case False
    then have "\<not> 0 \<le> - int j" by simp
    then show ?thesis using nz b64 reduce_exact [of j n]
      by (simp add: to_number_def del: reduce.simps)
  qed
qed

lemma startsWith_single: "startsWith v [c] \<longleftrightarrow> v \<noteq> [] \<and> hd v = c"
  by (cases v) (simp_all add: startsWith_def)

lemma endsWith_single: "endsWith v [c] \<longleftrightarrow> v \<noteq> [] \<and> last v = c"
proof (cases "v = []")
  case True
  then show ?thesis by (simp add: endsWith_def)
next
  case False
  then have "v = butlast v @ [last v]" by simp
  then have "drop (length v - 1) v = [last v]"
    by (metis append_eq_conv_conj length_butlast)
  with False show ?thesis by (auto simp: endsWith_def Suc_le_eq)
qed

lemma quoted_spec_iff:
  "quoted_spec v \<longleftrightarrow>
     (startsWith v [SQ] \<and> endsWith v [SQ]) \<or> (startsWith v [DQ] \<and> endsWith v [DQ])"
  by (auto simp: quoted_spec_def startsWith_single endsWith_single)

lemma not_digit_minus: "\<not> is_digit (CHR ''-'')"
  by (simp add: is_digit_def)

lemma not_digit_dot: "\<not> is_digit (CHR ''.'')"
  by (simp add: is_digit_def)

lemma digits_not_minus:
  assumes "ip \<noteq> []" and "list_all is_digit ip"
  shows "hd (ip @ rest) \<noteq> CHR ''-''"
proof -
  from assms obtain d ip' where "ip = d # ip'" "is_digit d" by (cases ip) auto
  then show ?thesis using not_digit_minus by auto
qed

text \<open>What the two tests of the code accept, with the digits made explicit.\<close>

lemma int_code:
  "is_int_literal v \<longleftrightarrow>
     (\<exists>ds. ds \<noteq> [] \<and> list_all is_digit ds \<and> (v = ds \<or> v = CHR ''-'' # ds))"
  (is "?L \<longleftrightarrow> ?R")
proof
  assume ?R
  then obtain ds where ds: "ds \<noteq> []" "list_all is_digit ds"
    and v: "v = ds \<or> v = CHR ''-'' # ds"
    by auto
  from ds obtain d ds' where d: "ds = d # ds'" "is_digit d" by (cases ds) auto
  then have "d \<noteq> CHR ''-''" using not_digit_minus by auto
  with v ds d show ?L by (auto simp: is_int_literal_def)
next
  assume a: ?L
  show ?R
  proof (cases v)
    case Nil
    with a show ?thesis by (simp add: is_int_literal_def)
  next
    case (Cons c cs)
    with a show ?thesis
      by (cases "c = CHR ''-''") (auto simp: is_int_literal_def)
  qed
qed

lemma int_pattern_spec_iff: "int_pattern_spec v \<longleftrightarrow> is_int_literal v"
  unfolding int_pattern_spec_def int_code is_digit_fun ..

lemma float_code:
  "(takeWhile is_digit ds \<noteq> [] \<and>
    (case dropWhile is_digit ds of
       c # fp \<Rightarrow> c = CHR ''.'' \<and> fp \<noteq> [] \<and> list_all is_digit fp
     | [] \<Rightarrow> False))
   \<longleftrightarrow> (\<exists>ip fp. ip \<noteq> [] \<and> fp \<noteq> [] \<and> list_all is_digit ip \<and> list_all is_digit fp \<and>
          ds = ip @ CHR ''.'' # fp)"
  (is "?L \<longleftrightarrow> ?R")
proof
  assume l: ?L
  then obtain fp where fp: "dropWhile is_digit ds = CHR ''.'' # fp" "fp \<noteq> []"
    "list_all is_digit fp"
    by (auto split: list.splits)
  have "ds = takeWhile is_digit ds @ dropWhile is_digit ds" by simp
  then have "ds = takeWhile is_digit ds @ CHR ''.'' # fp" by (simp only: fp(1))
  moreover have "list_all is_digit (takeWhile is_digit ds)"
    by (auto simp: list_all_iff dest: set_takeWhileD)
  moreover from l have "takeWhile is_digit ds \<noteq> []" by simp
  ultimately show ?R using fp(2,3) by blast
next
  assume ?R
  then obtain ip fp where r: "ip \<noteq> []" "fp \<noteq> []" "list_all is_digit ip"
    "list_all is_digit fp" "ds = ip @ CHR ''.'' # fp" by blast
  from r(3) have all: "\<And>x. x \<in> set ip \<Longrightarrow> is_digit x" by (simp add: list_all_iff)
  have t: "takeWhile is_digit ds = ip"
    unfolding r(5) using all not_digit_dot by (simp add: takeWhile_append2)
  have d: "dropWhile is_digit ds = CHR ''.'' # fp"
    unfolding r(5) using all not_digit_dot by (simp add: dropWhile_append2)
  show ?L unfolding t d using r by simp
qed

lemma float_literal_code:
  "is_float_literal v \<longleftrightarrow>
     (\<exists>ip fp. ip \<noteq> [] \<and> fp \<noteq> [] \<and> list_all is_digit ip \<and> list_all is_digit fp \<and>
        (v = ip @ CHR ''.'' # fp \<or> v = CHR ''-'' # ip @ CHR ''.'' # fp))"
  (is "_ \<longleftrightarrow> ?R v")
proof (cases v)
  case Nil
  have "\<not> is_float_literal []" by (simp add: is_float_literal_def)
  moreover have "\<not> ?R []" by simp
  ultimately show ?thesis using Nil by simp
next
  case (Cons c cs)
  show ?thesis
  proof (cases "c = CHR ''-''")
    case True
    have "is_float_literal v \<longleftrightarrow>
        (\<exists>ip fp. ip \<noteq> [] \<and> fp \<noteq> [] \<and> list_all is_digit ip \<and> list_all is_digit fp \<and>
           cs = ip @ CHR ''.'' # fp)"
      using float_code [of cs] by (simp add: is_float_literal_def Let_def Cons True)
    moreover have "?R v \<longleftrightarrow>
        (\<exists>ip fp. ip \<noteq> [] \<and> fp \<noteq> [] \<and> list_all is_digit ip \<and> list_all is_digit fp \<and>
           cs = ip @ CHR ''.'' # fp)"
    proof -
      have "\<And>ip fp. ip \<noteq> [] \<Longrightarrow> list_all is_digit ip \<Longrightarrow> v \<noteq> ip @ CHR ''.'' # fp"
      proof
        fix ip fp
        assume a: "ip \<noteq> []" "list_all is_digit ip" "v = ip @ CHR ''.'' # fp"
        from a(1,2) have "hd (ip @ CHR ''.'' # fp) \<noteq> CHR ''-''" by (rule digits_not_minus)
        moreover have "hd (ip @ CHR ''.'' # fp) = CHR ''-''"
          using a(3) Cons True by (metis list.sel(1))
        ultimately show False by (rule notE)
      qed
      then show ?thesis
        by (simp add: Cons True) blast
    qed
    ultimately show ?thesis by simp
  next
    case False
    have "is_float_literal v \<longleftrightarrow>
        (\<exists>ip fp. ip \<noteq> [] \<and> fp \<noteq> [] \<and> list_all is_digit ip \<and> list_all is_digit fp \<and>
           v = ip @ CHR ''.'' # fp)"
      using float_code [of v] by (simp add: is_float_literal_def Let_def Cons False)
    moreover have "?R v \<longleftrightarrow>
        (\<exists>ip fp. ip \<noteq> [] \<and> fp \<noteq> [] \<and> list_all is_digit ip \<and> list_all is_digit fp \<and>
           v = ip @ CHR ''.'' # fp)"
      using Cons False by auto
    ultimately show ?thesis by simp
  qed
qed

lemma float_pattern_spec_iff: "float_pattern_spec v \<longleftrightarrow> is_float_literal v"
  unfolding float_pattern_spec_def float_literal_code is_digit_fun ..

lemma parseInt_spec:
  assumes "is_int_literal v"
  shows "parseInt v = integer_spec v"
proof -
  from assms obtain ds where ds: "ds \<noteq> []" "list_all is_digit ds"
    and v: "v = ds \<or> v = CHR ''-'' # ds"
    unfolding int_code by blast
  from ds have h: "hd ds \<noteq> CHR ''-''" using digits_not_minus [of ds "[]"] by simp
  from v show ?thesis
  proof
    assume "v = ds"
    with ds h show ?thesis
      by (cases ds) (simp_all add: parseInt_def integer_spec_def digits_val_spec)
  next
    assume "v = CHR ''-'' # ds"
    with ds show ?thesis
      by (simp add: parseInt_def integer_spec_def digits_val_spec)
  qed
qed

lemma split_at_dot:
  assumes "list_all is_digit ip"
  shows "takeWhile is_digit (ip @ CHR ''.'' # fp) = ip"
    and "dropWhile is_digit (ip @ CHR ''.'' # fp) = CHR ''.'' # fp"
    and "takeWhile (\<lambda>c. c \<noteq> CHR ''.'') (ip @ CHR ''.'' # fp) = ip"
proof -
  from assms have all: "\<And>x. x \<in> set ip \<Longrightarrow> is_digit x" by (simp add: list_all_iff)
  then have nd: "\<And>x. x \<in> set ip \<Longrightarrow> x \<noteq> CHR ''.''" using not_digit_dot by blast
  show "takeWhile is_digit (ip @ CHR ''.'' # fp) = ip"
    using all not_digit_dot by (simp add: takeWhile_append2)
  show "dropWhile is_digit (ip @ CHR ''.'' # fp) = CHR ''.'' # fp"
    using all not_digit_dot by (simp add: dropWhile_append2)
  show "takeWhile (\<lambda>c. c \<noteq> CHR ''.'') (ip @ CHR ''.'' # fp) = ip"
    using nd by (simp add: takeWhile_append2)
qed

lemma parseFloat_spec:
  assumes "is_float_literal v"
  shows "parseFloat v = decimal_number_spec v"
proof -
  from assms obtain ip fp where d: "ip \<noteq> []" "fp \<noteq> []" "list_all is_digit ip"
    "list_all is_digit fp"
    and v: "v = ip @ CHR ''.'' # fp \<or> v = CHR ''-'' # ip @ CHR ''.'' # fp"
    unfolding float_literal_code by blast
  from d have h: "hd (ip @ CHR ''.'' # fp) \<noteq> CHR ''-''" by (intro digits_not_minus)
  from d have all: "list_all is_digit (ip @ fp)" by simp
  note s = split_at_dot [OF d(3), of fp]
  from v show ?thesis
  proof
    assume e: "v = ip @ CHR ''.'' # fp"
    with d(1) obtain c cs where c: "v = c # cs" by (cases ip) auto
    with e h have n: "c \<noteq> CHR ''-''" by (metis list.sel(1))
    from c n have neg: "(case v of c # cs \<Rightarrow> c = CHR ''-'' | [] \<Rightarrow> False) = False"
      and hd: "(hd v = CHR ''-'') = False" by simp_all
    have "parseFloat v =
        to_number False (digits_val (takeWhile is_digit v @ tl (dropWhile is_digit v)))
          (10 ^ length (tl (dropWhile is_digit v)))"
      unfolding parseFloat_def Let_def neg by simp
    then have "parseFloat v = to_number False (digits_val (ip @ fp)) (10 ^ length fp)"
      unfolding e s by simp
    moreover have "decimal_number_spec v =
        to_number False
          (decimal_spec (takeWhile (\<lambda>c. c \<noteq> CHR ''.'') v @
             drop (Suc (length (takeWhile (\<lambda>c. c \<noteq> CHR ''.'') v))) v))
          (10 ^ length (drop (Suc (length (takeWhile (\<lambda>c. c \<noteq> CHR ''.'') v))) v))"
      unfolding decimal_number_spec_def Let_def hd by simp
    then have "decimal_number_spec v = to_number False (decimal_spec (ip @ fp)) (10 ^ length fp)"
      unfolding e s by simp
    ultimately show ?thesis using digits_val_spec [OF all] by simp
  next
    assume e: "v = CHR ''-'' # ip @ CHR ''.'' # fp"
    have "parseFloat v = to_number True (digits_val (ip @ fp)) (10 ^ length fp)"
      unfolding parseFloat_def Let_def e using s by simp
    moreover have "decimal_number_spec v = to_number True (decimal_spec (ip @ fp)) (10 ^ length fp)"
      unfolding decimal_number_spec_def Let_def e using s by simp
    ultimately show ?thesis using digits_val_spec [OF all] by simp
  qed
qed

lemma cleanValue_spec: "cleanValue token = normalizeLiteral_spec token"
proof -
  have q: "unescape DQ (unescape SQ s) = drop_escapes_spec DQ (drop_escapes_spec SQ s)" for s
    by (simp add: unescape_spec)
  show ?thesis
    unfolding cleanValue_def normalizeLiteral_spec_def Let_def trim_spec_eq null_spec_iff
      quoted_spec_iff [symmetric] int_pattern_spec_iff [symmetric]
      float_pattern_spec_iff [symmetric] slice_1_m1_def q
    using parseInt_spec [of "trim_spec token"] parseFloat_spec [of "trim_spec token"]
    by (simp add: int_pattern_spec_iff float_pattern_spec_iff)
qed

lemma unescape_no_backslash: "BS \<notin> set s \<Longrightarrow> unescape q s = s"
  by (induction q s rule: unescape.induct) auto

lemma trim_spec_id:
  assumes "s \<noteq> []" and "\<not> white_spec (hd s)" and "\<not> white_spec (last s)"
  shows "trim_spec s = s"
proof -
  from assms(1,2) have a: "dropWhile white_spec s = s" by (cases s) simp_all
  from assms(1,3) have "takeWhile white_spec (rev s) = []"
    by (cases "rev s") (simp_all add: last_rev [symmetric] hd_rev)
  with a show ?thesis by (simp add: trim_spec_def)
qed

lemma digit_not_white: "digit_spec c \<Longrightarrow> \<not> white_spec c"
  by (auto simp: digit_spec_def white_spec_def)

lemma digit_chars:
  assumes "digit_spec c"
  shows "c \<noteq> CHR ''-''" "c \<noteq> SQ" "c \<noteq> DQ" "c \<notin> {CHR ''n'', CHR ''N''}"
  using assms by (auto simp: digit_spec_def)

lemma minus_not_white: "\<not> white_spec (CHR ''-'')"
  by (simp add: white_spec_def)

lemma integer_exact:
  assumes "ds \<noteq> []" and "list_all digit_spec ds"
      and "0 < decimal_spec ds" and "decimal_spec ds \<le> 2 ^ 53"
  shows "normalizeLiteral_spec ds = VInt (decimal_spec ds)"
    and "normalizeLiteral_spec (CHR ''-'' # ds) = VInt (- decimal_spec ds)"
proof -
  from assms(1,2) have h: "digit_spec (hd ds)" and l: "digit_spec (last ds)"
    by (simp_all add: list_all_iff)
  have ip: "int_pattern_spec ds" "int_pattern_spec (CHR ''-'' # ds)"
    using assms(1,2) by (auto simp: int_pattern_spec_def)
  have t1: "trim_spec ds = ds"
    using assms(1) h l by (intro trim_spec_id digit_not_white)
  have t2: "trim_spec (CHR ''-'' # ds) = CHR ''-'' # ds"
    using assms(1) l by (intro trim_spec_id) (simp_all add: minus_not_white digit_not_white)
  have n1: "\<not> null_spec ds"
  proof
    assume "null_spec ds"
    then have "hd ds \<in> {CHR ''n'', CHR ''N''}" by (auto simp: null_spec_def)
    with digit_chars(4) [OF h] show False by blast
  qed
  have n2: "\<not> null_spec (CHR ''-'' # ds)" by (auto simp: null_spec_def)
  have q1: "\<not> quoted_spec ds" using digit_chars(2,3) [OF h] by (simp add: quoted_spec_def)
  have q2: "\<not> quoted_spec (CHR ''-'' # ds)" by (simp add: quoted_spec_def)
  have i1: "integer_spec ds = VInt (decimal_spec ds)"
    using digit_chars(1) [OF h] to_number_exact [OF assms(3,4), of False]
    by (simp add: integer_spec_def signed_def)
  have i2: "integer_spec (CHR ''-'' # ds) = VInt (- decimal_spec ds)"
    using to_number_exact [OF assms(3,4), of True]
    by (simp add: integer_spec_def signed_def)
  show "normalizeLiteral_spec ds = VInt (decimal_spec ds)"
    by (simp add: normalizeLiteral_spec_def t1 n1 q1 ip i1)
  show "normalizeLiteral_spec (CHR ''-'' # ds) = VInt (- decimal_spec ds)"
    by (simp add: normalizeLiteral_spec_def t2 n2 q2 ip i2)
qed

lemma cleanValue_examples:
  "cleanValue ''NULL'' = VNull"
  "cleanValue ''null'' = VNull"
  "cleanValue ('' nUlL'' @ [CHR 0x09]) = VNull"
  "cleanValue ''NULLS'' = VStr ''NULLS''"
  "cleanValue (SQ # ''NULL'' @ [SQ]) = VStr ''NULL''"
  "cleanValue (SQ # ''5'' @ [SQ]) = VStr ''5''"
  "cleanValue (DQ # ''5'' @ [DQ]) = VStr ''5''"
  "cleanValue (SQ # ''5'' @ [DQ]) = VStr (SQ # ''5'' @ [DQ])"
  "cleanValue [SQ] = VStr []"
  "cleanValue ''5'' = VInt 5"
  "cleanValue '' -42 '' = VInt (- 42)"
  "cleanValue ''007'' = VInt 7"
  "cleanValue ''5.5'' = VFloat 11 (- 1)"
  "cleanValue ''-12.50'' = VFloat (- 25) (- 1)"
  "cleanValue ''0.1'' = VFloat 3602879701896397 (- 55)"
  "cleanValue ''1.0'' = VInt 1"
  "cleanValue ''-0'' = VNegZero"
  "cleanValue ''9007199254740993'' = VInt 9007199254740992"
  "cleanValue ''9007199254740995'' = VInt 9007199254740996"
  "cleanValue ''5.'' = VStr ''5.''"
  "cleanValue ''.5'' = VStr ''.5''"
  "cleanValue ''1e3'' = VStr ''1e3''"
  "cleanValue ''+5'' = VStr ''+5''"
  "cleanValue ''CURRENT_TIMESTAMP'' = VStr ''CURRENT_TIMESTAMP''"
  "cleanValue (SQ # ''O'' @ [BS, SQ] @ ''Brien'' @ [SQ]) = VStr (''O'' @ [SQ] @ ''Brien'')"
  "cleanValue (DQ # ''a'' @ [BS, DQ] @ ''b'' @ [BS] @ ''n'' @ [DQ]) = VStr (''a'' @ [DQ] @ ''b'' @ [BS] @ ''n'')"
  by code_simp+

text \<open>
  C4, as the code has it. \<^verbatim>\<open>cleanValue\<close> computes the normalizer of the specification:
  after trimming, a token that is \<^verbatim>\<open>NULL\<close> in any mix of cases is null; otherwise a
  token that starts and ends with the same single or double quote is the string between
  the outer quotes with every backslash in front of a single quote and then every
  backslash in front of a double quote removed; otherwise an optional minus and digits
  give the number of that integer; otherwise an optional minus, digits, a dot and digits
  give the number of that decimal; otherwise the trimmed token itself is returned. A
  number is the binary64 value nearest to what is written: an integer of magnitude from
  1 to \<open>2 ^ 53\<close> is that integer, \<^verbatim>\<open>1.0\<close> is the number 1, \<^verbatim>\<open>-0\<close> is the negative
  zero, and a larger integer is rounded (\<^verbatim>\<open>9007199254740993\<close> to
  \<^verbatim>\<open>9007199254740992\<close>). No other backslash sequence is touched: a text without
  backslash is returned as it is. The examples of the specification evaluate as stated,
  5.5 being the number \<open>11 * 2 ^ - 1\<close>.
\<close>

theorem cleanValue_precedence:
  "cleanValue token = normalizeLiteral_spec token
   \<and> (ds \<noteq> [] \<and> list_all digit_spec ds \<and> 0 < decimal_spec ds \<and> decimal_spec ds \<le> 2 ^ 53 \<longrightarrow>
        cleanValue ds = VInt (decimal_spec ds)
        \<and> cleanValue (CHR ''-'' # ds) = VInt (- decimal_spec ds))
   \<and> (BS \<notin> set body \<longrightarrow> unescape q body = body)
   \<and> cleanValue ''NULL'' = VNull
   \<and> cleanValue ''null'' = VNull
   \<and> cleanValue ('' nUlL'' @ [CHR 0x09]) = VNull
   \<and> cleanValue ''NULLS'' = VStr ''NULLS''
   \<and> cleanValue (SQ # ''NULL'' @ [SQ]) = VStr ''NULL''
   \<and> cleanValue (SQ # ''5'' @ [SQ]) = VStr ''5''
   \<and> cleanValue (DQ # ''5'' @ [DQ]) = VStr ''5''
   \<and> cleanValue (SQ # ''5'' @ [DQ]) = VStr (SQ # ''5'' @ [DQ])
   \<and> cleanValue [SQ] = VStr []
   \<and> cleanValue ''5'' = VInt 5
   \<and> cleanValue '' -42 '' = VInt (- 42)
   \<and> cleanValue ''007'' = VInt 7
   \<and> cleanValue ''5.5'' = VFloat 11 (- 1)
   \<and> cleanValue ''-12.50'' = VFloat (- 25) (- 1)
   \<and> cleanValue ''0.1'' = VFloat 3602879701896397 (- 55)
   \<and> cleanValue ''1.0'' = VInt 1
   \<and> cleanValue ''-0'' = VNegZero
   \<and> cleanValue ''9007199254740993'' = VInt 9007199254740992
   \<and> cleanValue ''9007199254740995'' = VInt 9007199254740996
   \<and> cleanValue ''5.'' = VStr ''5.''
   \<and> cleanValue ''.5'' = VStr ''.5''
   \<and> cleanValue ''1e3'' = VStr ''1e3''
   \<and> cleanValue ''+5'' = VStr ''+5''
   \<and> cleanValue ''CURRENT_TIMESTAMP'' = VStr ''CURRENT_TIMESTAMP''
   \<and> cleanValue (SQ # ''O'' @ [BS, SQ] @ ''Brien'' @ [SQ]) = VStr (''O'' @ [SQ] @ ''Brien'')
   \<and> cleanValue (DQ # ''a'' @ [BS, DQ] @ ''b'' @ [BS] @ ''n'' @ [DQ])
       = VStr (''a'' @ [DQ] @ ''b'' @ [BS] @ ''n'')"
proof -
  have general: "cleanValue token = normalizeLiteral_spec token"
    by (rule cleanValue_spec)
  have exact: "ds \<noteq> [] \<and> list_all digit_spec ds \<and> 0 < decimal_spec ds \<and> decimal_spec ds \<le> 2 ^ 53 \<longrightarrow>
      cleanValue ds = VInt (decimal_spec ds)
      \<and> cleanValue (CHR ''-'' # ds) = VInt (- decimal_spec ds)"
    using integer_exact [of ds] by (simp add: cleanValue_spec)
  have other: "BS \<notin> set body \<longrightarrow> unescape q body = body"
    using unescape_no_backslash [of body q] by blast
  show ?thesis
    by (intro conjI) (fact general exact other cleanValue_examples)+
qed

text \<open>An instance of C4: the digits \<^verbatim>\<open>42\<close> denote an integer between 1 and \<open>2 ^ 53\<close>,
  so \<^verbatim>\<open>42\<close> and \<^verbatim>\<open>-42\<close> are the numbers 42 and -42; the token \<^verbatim>\<open> -42 \<close> with
  surrounding blanks is the number -42 for the specified normalizer; and a text without
  backslash is not changed.\<close>

theorem cleanValue_precedence_witness:
  "''42'' \<noteq> [] \<and> list_all digit_spec ''42'' \<and> 0 < decimal_spec ''42''
   \<and> decimal_spec ''42'' \<le> 2 ^ 53
   \<and> cleanValue ''42'' = VInt 42 \<and> cleanValue ''-42'' = VInt (- 42)
   \<and> BS \<notin> set ''a,b'' \<and> unescape SQ ''a,b'' = ''a,b''
   \<and> normalizeLiteral_spec '' -42 '' = VInt (- 42)"
proof -
  note t = cleanValue_precedence
    [where token = "'' -42 ''" and ds = "''42''" and body = "''a,b''" and q = SQ]
  have d: "list_all digit_spec ''42''" by (simp add: digit_spec_def)
  have v: "decimal_spec ''42'' = 42" by (simp add: decimal_spec_def)
  from t d v have i: "cleanValue ''42'' = VInt 42" "cleanValue ''-42'' = VInt (- 42)"
    by simp_all
  have b: "BS \<notin> set ''a,b''" by simp
  from t b have u: "unescape SQ ''a,b'' = ''a,b''" by blast
  from t have "cleanValue '' -42 '' = normalizeLiteral_spec '' -42 ''" by (rule conjunct1)
  moreover from t have "cleanValue '' -42 '' = VInt (- 42)" by blast
  ultimately have n: "normalizeLiteral_spec '' -42 '' = VInt (- 42)" by simp
  from d v i b u n show ?thesis by simp
qed

text \<open>C4 as worded fails on the numbers: a token of the integer pattern does not always
  yield an integer. The token of a one followed by 309 zeros passes the test
  \<^verbatim>\<open>/^-?\d+$/\<close>, and \<^verbatim>\<open>parseInt\<close> returns \<^verbatim>\<open>Infinity\<close> for it, since the integer lies
  beyond the range of the binary64 numbers.\<close>

theorem cleanValue_huge_integer_counterexample:
  "is_int_literal (CHR ''1'' # replicate 309 (CHR ''0''))
   \<and> cleanValue (CHR ''1'' # replicate 309 (CHR ''0'')) = VInfinity"
  by code_simp

section \<open>The schema parsers on statements without back-ticks\<close>

lemma parseCreateTable_ts_plain:
  "parseCreateTable_ts plain_create =
     Some \<lparr>tableName = ''t'',
           columns = [\<lparr>col_name = ''a'', col_type = ''INT''\<rparr>,
                      \<lparr>col_name = ''b'', col_type = ''VARCHAR(10)''\<rparr>],
           data = []\<rparr>"
  by code_simp

lemma parseCreateTable_js_plain:
  "parseCreateTable_js plain_create = Some \<lparr>tableName = ''t'', columns = [], data = []\<rparr>"
  by code_simp

text \<open>The TypeScript parser does not split \<^verbatim>\<open>DECIMAL(10,2)\<close>, and takes back-ticks or
  none.\<close>

lemma parseCreateTable_ts_decimal:
  "parseCreateTable_ts (''CREATE TABLE `p` (`id` INT, price DECIMAL(10,2) NOT NULL)'') =
     Some \<lparr>tableName = ''p'',
           columns = [\<lparr>col_name = ''id'', col_type = ''INT''\<rparr>,
                      \<lparr>col_name = ''price'', col_type = ''DECIMAL(10,2) NOT NULL''\<rparr>],
           data = []\<rparr>"
  by code_simp

text \<open>The README example: the documented output lists three columns, which the
  TypeScript parser produces and the JavaScript parser does not.\<close>

lemma parseCreateTable_ts_readme:
  "parseCreateTable_ts readme_users =
     Some \<lparr>tableName = ''users'',
           columns = [\<lparr>col_name = ''id'', col_type = ''INT PRIMARY KEY AUTO_INCREMENT''\<rparr>,
                      \<lparr>col_name = ''name'', col_type = ''VARCHAR(255) NOT NULL''\<rparr>,
                      \<lparr>col_name = ''email'', col_type = ''VARCHAR(255) UNIQUE''\<rparr>],
           data = []\<rparr>"
  by code_simp

lemma parseCreateTable_js_readme:
  "parseCreateTable_js readme_users = Some \<lparr>tableName = ''users'', columns = [], data = []\<rparr>"
  by code_simp

text \<open>
  C1 at its own example, on the JavaScript implementation: \<^verbatim>\<open>parseCreateTable\<close> of
  \<^verbatim>\<open>bin/cli.js\<close> cuts the column body at line feeds and accepts a column only when
  its name is in back-ticks, so for \<^verbatim>\<open>CREATE TABLE t (a INT, b VARCHAR(10))\<close> it
  returns the table \<open>t\<close> with no column at all, where the claim (and the TypeScript
  implementation, see \<open>parseCreateTable_ts_plain\<close>) has the columns \<open>a\<close> and \<open>b\<close>.
\<close>

theorem parseCreateTable_js_loses_plain_columns:
  "parseCreateTable_js ''CREATE TABLE t (a INT, b VARCHAR(10))''
     = Some \<lparr>tableName = ''t'', columns = [], data = []\<rparr>
   \<and> parseCreateTable_js readme_users
     = Some \<lparr>tableName = ''users'', columns = [], data = []\<rparr>"
  using parseCreateTable_js_plain parseCreateTable_js_readme
  by (simp add: plain_create_def)

text \<open>
  C2 at the same statement: the two implementations of \<^verbatim>\<open>parseCreateTable\<close> return
  different results, the JavaScript one an empty column list and the TypeScript one
  the two columns.
\<close>

theorem parseCreateTable_js_ts_differ:
  "parseCreateTable_js ''CREATE TABLE t (a INT, b VARCHAR(10))''
     \<noteq> parseCreateTable_ts ''CREATE TABLE t (a INT, b VARCHAR(10))''"
  using parseCreateTable_js_plain parseCreateTable_ts_plain
  by (simp add: plain_create_def)

text \<open>Both implementations agree on whether a table is produced and on its name.\<close>

lemma parseCreateTable_same_name:
  "map_option tableName (parseCreateTable_js sql) = map_option tableName (parseCreateTable_ts sql)"
  by (simp add: parseCreateTable_js_def parseCreateTable_ts_def split: option.splits)

lemma parseCreateTable_ts_data: "parseCreateTable_ts sql = Some ti \<Longrightarrow> data ti = []"
  by (auto simp: parseCreateTable_ts_def split: option.splits)

lemma parseCreateTable_js_data: "parseCreateTable_js sql = Some ti \<Longrightarrow> data ti = []"
  by (auto simp: parseCreateTable_js_def split: option.splits)

section \<open>The dispatcher\<close>

lemma upper_prefix_cases:
  assumes "startsWith (toUpperCase x) (p1 # p2 # ps)"
  shows "\<exists>a b r. x = a # b # r \<and> upper_char a = p1 \<and> upper_char b = p2"
proof -
  from assms have tk: "take (Suc (Suc (length ps))) (map upper_char x) = p1 # p2 # ps"
    by (simp add: startsWith_def toUpperCase_def)
  show ?thesis
  proof (cases x)
    case Nil
    with tk show ?thesis by simp
  next
    case (Cons a y)
    show ?thesis
    proof (cases y)
      case Nil
      with Cons tk show ?thesis by simp
    next
      case (Cons b r)
      with \<open>x = a # y\<close> tk show ?thesis by simp
    qed
  qed
qed

lemma nonempty_of_prefix: "startsWith (toUpperCase x) (p1 # p2 # ps) \<Longrightarrow> x \<noteq> []"
  by (drule upper_prefix_cases) auto

lemma create_dispatch:
  assumes "startsWith (toUpperCase x) ''CREATE TABLE''"
  shows "\<not> startsWith x ''START TRANSACTION'' \<and> \<not> startsWith x ''COMMIT''
       \<and> \<not> startsWith (toUpperCase x) ''DROP TABLE''"
proof -
  from upper_prefix_cases [OF assms] obtain a b r
    where x: "x = a # b # r" and u: "upper_char a = CHR ''C''" "upper_char b = CHR ''R''"
    by blast
  have "upper_char (CHR ''S'') = CHR ''S''" "upper_char (CHR ''O'') = CHR ''O''"
    by (simp_all add: upper_char_def)
  with x u show ?thesis
    by (auto simp: startsWith_def toUpperCase_def)
qed

lemma insert_dispatch:
  assumes "startsWith (toUpperCase x) ''INSERT INTO''"
  shows "\<not> startsWith x ''START TRANSACTION'' \<and> \<not> startsWith x ''COMMIT''
       \<and> \<not> startsWith (toUpperCase x) ''DROP TABLE''
       \<and> \<not> startsWith (toUpperCase x) ''CREATE TABLE''"
proof -
  from upper_prefix_cases [OF assms] obtain a b r
    where x: "x = a # b # r" and u: "upper_char a = CHR ''I''" "upper_char b = CHR ''N''"
    by blast
  have "upper_char (CHR ''S'') = CHR ''S''" "upper_char (CHR ''C'') = CHR ''C''"
    by (simp_all add: upper_char_def)
  with x u show ?thesis
    by (auto simp: startsWith_def toUpperCase_def)
qed

lemma counted_simps:
  "tables (counted s) = tables s" "tables_proto (counted s) = tables_proto s"
  "currentTable (counted s) = currentTable s"
  "insideTransaction (counted s) = insideTransaction s"
  "limit (counted s) = limit s"
  "processedStatements (counted s) = js_incr (processedStatements s)"
  by (simp_all add: counted_def)

lemma tables_get_frame:
  assumes "tables s = tables t" and "tables_proto s = tables_proto t"
  shows "tables_get s n = tables_get t n"
  unfolding tables_get_def assms ..

lemma tables_get_counted: "tables_get (counted s) n = tables_get s n"
  by (rule tables_get_frame) (simp_all add: counted_simps)

lemma tables_get_set_same: "lookup_table (tables_get (tables_set s n ti) n) = Some ti"
  by (simp add: tables_get_def tables_set_def lookup_table_def update_conv')

lemma tables_get_currentTable: "tables_get (s\<lparr>currentTable := c\<rparr>) n = tables_get s n"
  by (rule tables_get_frame) simp_all

lemma processStatement_with_empty:
  "trim sql = [] \<Longrightarrow> processStatement_with parseCT er s sql = Inr (s, er)"
  by (simp add: processStatement_with_def)

lemma processStatement_with_limit:
  assumes "trim sql \<noteq> []" and "limit_reached (counted s)"
  shows "processStatement_with parseCT er s sql = Inr (counted s, Some False)"
  using assms by (simp add: processStatement_with_def Let_def counted_def [symmetric])

lemma processStatement_with_create:
  assumes "startsWith (toUpperCase (trim sql)) ''CREATE TABLE''"
      and "\<not> limit_reached (counted s)"
      and "parseCT (trim sql) = Some ti"
  shows "processStatement_with parseCT er s sql =
         Inr ((tables_set (counted s) (tableName ti) ti)\<lparr>currentTable := Some (tableName ti)\<rparr>,
              Some True)"
  using assms create_dispatch [OF assms(1)] nonempty_of_prefix [OF assms(1)]
  by (simp add: processStatement_with_def Let_def counted_def [symmetric])

lemma processStatement_with_orphan:
  assumes "startsWith (toUpperCase (trim sql)) ''INSERT INTO''"
      and "\<not> limit_reached (counted s)"
      and "parseInsertInto (trim sql) = Some ii"
      and "tables_get s (ins_tableName ii) = Absent"
  shows "processStatement_with parseCT er s sql = Inr (counted s, Some True)"
proof -
  have "tables_get (counted s) (ins_tableName ii) = Absent"
    using assms(4) by (simp add: tables_get_counted)
  with assms(1-3) insert_dispatch [OF assms(1)] nonempty_of_prefix [OF assms(1)]
  show ?thesis
    by (simp add: processStatement_with_def Let_def counted_def [symmetric])
qed

lemma create_replaces:
  assumes "startsWith (toUpperCase (trim sql)) ''CREATE TABLE''"
      and "\<not> limit_reached (counted s)"
      and "parseCT (trim sql) = Some ti"
  shows "\<exists>s'. processStatement_with parseCT er s sql = Inr (s', Some True)
            \<and> lookup_table (tables_get s' (tableName ti)) = Some ti"
  using assms processStatement_with_create
    [where sql = sql and s = s and parseCT = parseCT and ti = ti and er = er]
  by (simp add: tables_get_currentTable tables_get_set_same)

text \<open>
  C5: when a \<^verbatim>\<open>CREATE TABLE\<close> statement is dispatched (the limit is not reached) and
  the schema parser yields a table \<open>ti\<close>, then \<open>ti\<close> has no rows and, whatever the
  registry held before under that name, the lookup of the name afterwards yields
  exactly \<open>ti\<close>: the columns are the new ones and the rows gathered before are gone.
  This holds for both implementations.
\<close>

theorem create_table_replaces_entry:
  assumes "startsWith (toUpperCase (trim sql)) ''CREATE TABLE''"
      and "\<not> limit_reached (counted s)"
  shows "(parseCreateTable_ts (trim sql) = Some ti \<longrightarrow>
            data ti = [] \<and>
            (\<exists>s'. processStatement_ts s sql = Inr (s', Some True)
                 \<and> lookup_table (tables_get s' (tableName ti)) = Some ti))
       \<and> (parseCreateTable_js (trim sql) = Some tj \<longrightarrow>
            data tj = [] \<and>
            (\<exists>s'. processStatement_js s sql = Inr (s', Some True)
                 \<and> lookup_table (tables_get s' (tableName tj)) = Some tj))"
  using assms
    create_replaces [where sql = sql and s = s and parseCT = parseCreateTable_ts
      and ti = ti and er = "Some True"]
    create_replaces [where sql = sql and s = s and parseCT = parseCreateTable_js
      and ti = tj and er = None]
    parseCreateTable_ts_data [of "trim sql" ti] parseCreateTable_js_data [of "trim sql" tj]
  by (simp add: processStatement_ts_def processStatement_js_def)

text \<open>An instance of C5: the sample converter holds \<open>t\<close> with columns \<open>a\<close>, \<open>b\<close> and
  one row; after \<^verbatim>\<open>CREATE TABLE t (c INT)\<close> the lookup of \<open>t\<close> yields the table with
  the single column \<open>c\<close> and no row (in JavaScript, where the column without
  back-ticks is lost, the table without columns and without rows).\<close>

theorem create_table_replaces_entry_witness:
  "startsWith (toUpperCase (trim ''CREATE TABLE t (c INT)'')) ''CREATE TABLE''
   \<and> \<not> limit_reached (counted sample_converter)
   \<and> lookup_table (tables_get sample_converter ''t'') = Some sample_table
   \<and> data sample_table \<noteq> []
   \<and> parseCreateTable_ts (trim ''CREATE TABLE t (c INT)'')
       = Some \<lparr>tableName = ''t'', columns = [\<lparr>col_name = ''c'', col_type = ''INT''\<rparr>], data = []\<rparr>
   \<and> (\<exists>s'. processStatement_ts sample_converter ''CREATE TABLE t (c INT)'' = Inr (s', Some True)
          \<and> lookup_table (tables_get s' ''t'')
              = Some \<lparr>tableName = ''t'', columns = [\<lparr>col_name = ''c'', col_type = ''INT''\<rparr>],
                      data = []\<rparr>)
   \<and> parseCreateTable_js (trim ''CREATE TABLE t (c INT)'')
       = Some \<lparr>tableName = ''t'', columns = [], data = []\<rparr>
   \<and> (\<exists>s'. processStatement_js sample_converter ''CREATE TABLE t (c INT)'' = Inr (s', Some True)
          \<and> lookup_table (tables_get s' ''t'') = Some \<lparr>tableName = ''t'', columns = [], data = []\<rparr>)"
proof -
  let ?sql = "''CREATE TABLE t (c INT)''"
  let ?ti = "\<lparr>tableName = ''t'', columns = [\<lparr>col_name = ''c'', col_type = ''INT''\<rparr>], data = []\<rparr>"
  let ?tj = "\<lparr>tableName = ''t'', columns = [], data = []\<rparr> :: TableInfo"
  have h1: "startsWith (toUpperCase (trim ?sql)) ''CREATE TABLE''" by code_simp
  have h2: "\<not> limit_reached (counted sample_converter)" by code_simp
  have h3: "lookup_table (tables_get sample_converter ''t'') = Some sample_table" by code_simp
  have h4: "data sample_table \<noteq> []" by (simp add: sample_table_def)
  have h5: "parseCreateTable_ts (trim ?sql) = Some ?ti" by code_simp
  have h6: "parseCreateTable_js (trim ?sql) = Some ?tj" by code_simp
  note t = create_table_replaces_entry [OF h1 h2, of ?ti ?tj]
  from t h5
  have r1: "\<exists>s'. processStatement_ts sample_converter ?sql = Inr (s', Some True)
           \<and> lookup_table (tables_get s' (tableName ?ti)) = Some ?ti" by blast
  from t h6
  have r2: "\<exists>s'. processStatement_js sample_converter ?sql = Inr (s', Some True)
           \<and> lookup_table (tables_get s' (tableName ?tj)) = Some ?tj" by blast
  from h1 h2 h3 h4 h5 h6 r1 r2 show ?thesis by simp
qed

text \<open>An insert into a name that the lookup does not find is ignored.\<close>

lemma orphan_insert_ignored:
  assumes "startsWith (toUpperCase (trim sql)) ''INSERT INTO''"
      and "\<not> limit_reached (counted s)"
      and "parseInsertInto (trim sql) = Some ii"
      and "tables_get s (ins_tableName ii) = Absent"
  shows "processStatement_ts s sql = Inr (counted s, Some True)
       \<and> processStatement_js s sql = Inr (counted s, Some True)"
  using processStatement_with_orphan [OF assms]
  by (simp add: processStatement_ts_def processStatement_js_def)

lemma orphan_insert_parsed:
  "parseInsertInto orphan_insert = Some \<lparr>ins_tableName = ''constructor'', ins_records = [[VInt 1]]\<rparr>"
  by code_simp

lemma orphan_insert_lookup: "tables_get (new_converter None) ''constructor'' = NonTable"
  by code_simp

text \<open>Every parsed insert has at least one record, and an insert into a name under
  which the lookup finds something that is not a table throws.\<close>

lemma split_rows_nonempty: "split_rows s \<noteq> []"
  by (induction s rule: split_rows.induct) (auto split: option.splits list.splits)

lemma parseInsertInto_records: "parseInsertInto sql = Some ii \<Longrightarrow> ins_records ii \<noteq> []"
  by (auto simp: parseInsertInto_def split_rows_nonempty split: option.splits)

lemma insert_into_non_table_throws:
  assumes "startsWith (toUpperCase (trim sql)) ''INSERT INTO''"
      and "\<not> limit_reached (counted s)"
      and "parseInsertInto (trim sql) = Some ii"
      and "tables_get s (ins_tableName ii) = NonTable"
  shows "processStatement_ts s sql = Inl TypeError \<and> processStatement_js s sql = Inl TypeError"
proof -
  have "tables_get (counted s) (ins_tableName ii) = NonTable"
    using assms(4) by (simp add: tables_get_counted)
  with assms(1-3) insert_dispatch [OF assms(1)] nonempty_of_prefix [OF assms(1)]
    parseInsertInto_records [OF assms(3)]
  show ?thesis
    by (simp add: processStatement_ts_def processStatement_js_def processStatement_with_def
        Let_def counted_def [symmetric])
qed

lemma inherited_names_not_tables:
  "n \<in> set object_prototype_keys \<or> n = ''__proto__'' \<Longrightarrow>
   tables_get (new_converter lim) n = NonTable"
  by (auto simp: tables_get_def new_converter_def)

text \<open>
  C6 at \<^verbatim>\<open>INSERT INTO constructor VALUES (1)\<close> on a fresh converter, where no table has
  been created: the registry is the object \<^verbatim>\<open>{}\<close>, so \<^verbatim>\<open>this.tables['constructor']\<close> is
  the inherited function \<^verbatim>\<open>Object\<close>, which is truthy; the guard lets the statement
  through, \<^verbatim>\<open>table.columns\<close> is \<^verbatim>\<open>undefined\<close> and \<^verbatim>\<open>table.columns.forEach\<close> throws a
  \<^verbatim>\<open>TypeError\<close>, in both implementations. The claim wants the statement ignored
  without an error, as it is for every name the lookup does not find
  (\<open>orphan_insert_ignored\<close>).
\<close>

theorem orphan_insert_inherited_name_throws:
  "processStatement_ts (new_converter None) ''INSERT INTO constructor VALUES (1)'' = Inl TypeError
   \<and> processStatement_js (new_converter None) ''INSERT INTO constructor VALUES (1)'' = Inl TypeError"
  by code_simp

section \<open>The statement limit\<close>

text \<open>Apart from the counter and the limit test, a statement acts on the registry
  alone.\<close>

lemma step_frame:
  assumes ne: "trim x \<noteq> []"
      and ls: "\<not> limit_reached (counted s)" and lt: "\<not> limit_reached (counted t)"
      and reg: "registry_of s = registry_of t"
  shows "(\<exists>e. processStatement_with parseCT er s x = Inl e
             \<and> processStatement_with parseCT er t x = Inl e)
       \<or> (\<exists>s' t'. processStatement_with parseCT er s x = Inr (s', Some True)
                 \<and> processStatement_with parseCT er t x = Inr (t', Some True)
                 \<and> registry_of s' = registry_of t'
                 \<and> limit s' = limit s \<and> limit t' = limit t
                 \<and> processedStatements s' = js_incr (processedStatements s))"
proof -
  let ?c = "counted s"
  let ?d = "counted t"
  from reg have r: "tables s = tables t" "tables_proto s = tables_proto t"
    "currentTable s = currentTable t" "insideTransaction s = insideTransaction t"
    by (simp_all add: registry_of_def)
  have tg: "\<And>n. tables_get ?c n = tables_get ?d n"
    by (rule tables_get_frame) (simp_all add: counted_simps r)
  note defs = processStatement_with_def Let_def counted_def [symmetric] counted_simps
    registry_of_def tables_set_def
  show ?thesis
  proof (cases "parseInsertInto (trim x)")
    case None
    with ne ls lt r show ?thesis
      by (auto simp: defs split: option.splits)
  next
    case (Some ii)
    show ?thesis
    proof (cases "tables_get ?d (ins_tableName ii)")
      case Absent
      with Some ne ls lt r tg [of "ins_tableName ii"] show ?thesis
        by (auto simp: defs split: option.splits)
    next
      case (OwnTable ti)
      with Some ne ls lt r tg [of "ins_tableName ii"] show ?thesis
        by (auto simp: defs split: option.splits)
    next
      case (ProtoTable ti)
      with Some ne ls lt r tg [of "ins_tableName ii"] show ?thesis
        by (auto simp: defs split: option.splits)
    next
      case NonTable
      with Some ne ls lt r tg [of "ins_tableName ii"] show ?thesis
        by (auto simp: defs split: option.splits)
    qed
  qed
qed

lemma outcome_simps: "outcome (Inl e) = Inl e" "outcome (Inr s) = Inr (registry_of s)"
  by (simp_all add: outcome_def)

lemma run_statements_limit:
  assumes "\<forall>x \<in> set xs. trim x \<noteq> []"
      and "registry_of s = registry_of t"
      and "limit s = Some N" and "N \<noteq> 0" and "limit t = None"
      and "0 \<le> processedStatements s"
      and "processedStatements s + int (length xs) \<le> 2 ^ 53"
  shows "outcome (run_statements (processStatement_with parseCT er) s xs) =
         outcome (run_statements (processStatement_with parseCT er) t
                    (take (nat (N - processedStatements s)) xs))"
  using assms
proof (induction xs arbitrary: s t)
  case Nil
  then show ?case by (simp add: outcome_simps)
next
  case (Cons x xs)
  let ?P = "processStatement_with parseCT er"
  let ?k = "processedStatements s"
  from Cons.prems have ne: "trim x \<noteq> []" by simp
  from Cons.prems have k: "?k < 2 ^ 53" by simp
  then have inc: "js_incr ?k = ?k + 1" by (simp add: js_incr_def)
  have lt: "\<not> limit_reached (counted t)"
    using Cons.prems(5) by (simp add: limit_reached_def counted_simps)
  show ?case
  proof (cases "limit_reached (counted s)")
    case True
    then have "N < ?k + 1"
      using Cons.prems(3) inc by (simp add: limit_reached_def counted_simps)
    then have z: "nat (N - ?k) = 0" by simp
    have "?P s x = Inr (counted s, Some False)"
      using ne True by (rule processStatement_with_limit)
    then show ?thesis
      using Cons.prems(2) by (simp add: z registry_of_def counted_simps outcome_simps)
  next
    case False
    then have "?k + 1 \<le> N"
      using Cons.prems(3,4) inc by (simp add: limit_reached_def counted_simps)
    then have sn: "nat (N - ?k) = Suc (nat (N - (?k + 1)))" by simp
    from step_frame [OF ne False lt Cons.prems(2), of parseCT er]
    show ?thesis
    proof (elim disjE exE conjE)
      fix e
      assume "?P s x = Inl e" "?P t x = Inl e"
      then show ?thesis by (simp add: sn)
    next
      fix s' t'
      assume a: "?P s x = Inr (s', Some True)" "?P t x = Inr (t', Some True)"
        "registry_of s' = registry_of t'" "limit s' = limit s" "limit t' = limit t"
        "processedStatements s' = js_incr ?k"
      have "outcome (run_statements ?P s' xs) =
            outcome (run_statements ?P t' (take (nat (N - processedStatements s')) xs))"
      proof (rule Cons.IH)
        show "\<forall>x\<in>set xs. trim x \<noteq> []" using Cons.prems(1) by simp
        show "registry_of s' = registry_of t'" by (rule a(3))
        show "limit s' = Some N" using a(4) Cons.prems(3) by simp
        show "N \<noteq> 0" by (rule Cons.prems(4))
        show "limit t' = None" using a(5) Cons.prems(5) by simp
        show "0 \<le> processedStatements s'" using a(6) inc Cons.prems(6) by simp
        show "processedStatements s' + int (length xs) \<le> 2 ^ 53"
          using a(6) inc Cons.prems(7) by simp
      qed
      with a inc show ?thesis by (simp add: sn)
    qed
  qed
qed

lemma emitted_outcome: "outcome r = outcome r' \<Longrightarrow> emitted r = emitted r'"
  by (cases r; cases r') (simp_all add: outcome_def emitted_def registry_of_def)

lemma last_dropWhile: "dropWhile P xs \<noteq> [] \<Longrightarrow> last (dropWhile P xs) = last xs"
  by (induction xs) (auto split: if_splits)

lemma trim_idem: "trim (trim s) = trim s"
proof -
  let ?a = "dropWhile is_space s"
  let ?b = "dropWhile is_space (rev ?a)"
  have "dropWhile is_space (rev ?b) = rev ?b"
  proof (cases "?b = []")
    case True
    show ?thesis unfolding True by simp
  next
    case False
    have ne: "?a \<noteq> []"
    proof
      assume e: "?a = []"
      have "?b = []" unfolding e by simp
      with False show False by (rule notE)
    qed
    from False have "last ?b = last (rev ?a)" by (rule last_dropWhile)
    then have "hd (rev ?b) = hd ?a" by (simp only: hd_rev last_rev)
    moreover have "\<not> is_space (hd ?a)" using ne by (rule hd_dropWhile)
    ultimately have "\<not> is_space (hd (rev ?b))" by simp
    then show ?thesis by (simp only: dropWhile_eq_self_iff) simp
  qed
  then show ?thesis by (simp add: trim_def)
qed

lemma length_split_char: "length (split_char c s) \<le> Suc (length s)"
  by (induction s) (auto split: list.splits)

lemma statements_js_nonblank: "\<forall>x \<in> set (statements_js content). trim x \<noteq> []"
  by (simp add: statements_js_def)

lemma loop_statements_ts_nonblank: "\<forall>x \<in> set (loop_statements_ts content). trim x \<noteq> []"
  by (auto simp: loop_statements_ts_def statements_ts_def trim_idem)

lemma statements_js_length: "length (statements_js content) \<le> Suc (length content)"
proof -
  have "length (statements_js content) \<le> length (split_char (CHR '';'') content)"
    by (simp add: statements_js_def)
  also have "\<dots> \<le> Suc (length content)" by (rule length_split_char)
  finally show ?thesis .
qed

lemma loop_statements_ts_length: "length (loop_statements_ts content) \<le> Suc (length content)"
proof -
  have "length (loop_statements_ts content) \<le> length (statements_ts content)"
    by (simp add: loop_statements_ts_def)
  also have "\<dots> \<le> length (map trim (split_char (CHR '';'') content))"
    unfolding statements_ts_def by (rule length_filter_le)
  also have "\<dots> \<le> Suc (length content)" by (simp add: length_split_char)
  finally show ?thesis .
qed

lemma run_fresh_limit:
  assumes "\<forall>x \<in> set xs. trim x \<noteq> []" and "N \<noteq> 0" and "length xs \<le> Suc n" and "n < 2 ^ 53"
  shows "emitted (run_statements (processStatement_with parseCT er) (new_converter (Some N)) xs) =
         emitted (run_statements (processStatement_with parseCT er) (new_converter None)
                    (take (nat N) xs))"
proof -
  from assms(3,4) have "length xs \<le> 2 ^ 53" by simp
  then have "int (length xs) \<le> int (2 ^ 53)" by (simp only: of_nat_le_iff)
  then have b: "processedStatements (new_converter (Some N)) + int (length xs) \<le> 2 ^ 53"
    by (simp add: new_converter_def)
  have "outcome (run_statements (processStatement_with parseCT er) (new_converter (Some N)) xs) =
        outcome (run_statements (processStatement_with parseCT er) (new_converter None)
                   (take (nat (N - processedStatements (new_converter (Some N)))) xs))"
    using assms(1) _ _ assms(2) _ _ b
    by (rule run_statements_limit) (simp_all add: new_converter_def registry_of_def assms(2))
  then show ?thesis
    by (intro emitted_outcome) (simp add: new_converter_def)
qed

text \<open>
  C7: with a limit \<open>N\<close> in force (a number other than 0, which the constructor turns
  into "no limit"), a non-blank statement that finds the incremented counter above
  \<open>N\<close> returns \<^verbatim>\<open>false\<close> and leaves the converter as it was but for the counter, which
  was incremented before the test (by one, below \<open>2^53\<close>). Consequently \<^verbatim>\<open>sqlToJson\<close>
  run with limit \<open>N\<close> emits exactly the tables that the run without limit emits for
  the first \<open>N\<close> statements: no later statement is applied, and what the first \<open>N\<close>
  accumulated is kept. This holds for both implementations; the length bound is the
  one every JavaScript string meets.
\<close>

theorem statement_limit_stops:
  "(limit s = Some N \<and> N \<noteq> 0 \<and> trim sql \<noteq> [] \<and> N < js_incr (processedStatements s) \<longrightarrow>
      processStatement_ts s sql
        = Inr (s\<lparr>processedStatements := js_incr (processedStatements s)\<rparr>, Some False)
    \<and> processStatement_js s sql
        = Inr (s\<lparr>processedStatements := js_incr (processedStatements s)\<rparr>, Some False))
   \<and> (processedStatements s < 2 ^ 53 \<longrightarrow>
        js_incr (processedStatements s) = processedStatements s + 1)
   \<and> (N \<noteq> 0 \<and> length content < 2 ^ 53 \<longrightarrow>
        sqlToJson_ts (new_converter (Some N)) content
          = emitted (run_statements processStatement_ts (new_converter None)
                       (take (nat N) (loop_statements_ts content)))
      \<and> sqlToJson_js (new_converter (Some N)) content
          = emitted (run_statements processStatement_js (new_converter None)
                       (take (nat N) (statements_js content))))"
proof (intro conjI impI)
  assume a: "limit s = Some N \<and> N \<noteq> 0 \<and> trim sql \<noteq> [] \<and> N < js_incr (processedStatements s)"
  then have ne: "trim sql \<noteq> []" and lr: "limit_reached (counted s)"
    by (simp_all add: limit_reached_def counted_simps)
  from processStatement_with_limit [OF ne lr]
  show "processStatement_ts s sql
          = Inr (s\<lparr>processedStatements := js_incr (processedStatements s)\<rparr>, Some False)"
    by (simp add: processStatement_ts_def counted_def)
  from processStatement_with_limit [OF ne lr]
  show "processStatement_js s sql
          = Inr (s\<lparr>processedStatements := js_incr (processedStatements s)\<rparr>, Some False)"
    by (simp add: processStatement_js_def counted_def)
next
  assume "processedStatements s < 2 ^ 53"
  then show "js_incr (processedStatements s) = processedStatements s + 1"
    by (simp add: js_incr_def)
next
  assume a: "N \<noteq> 0 \<and> length content < 2 ^ 53"
  from a loop_statements_ts_nonblank [of content] loop_statements_ts_length [of content]
  show "sqlToJson_ts (new_converter (Some N)) content
          = emitted (run_statements processStatement_ts (new_converter None)
                       (take (nat N) (loop_statements_ts content)))"
    unfolding sqlToJson_ts_def processStatement_ts_def
    by (intro run_fresh_limit [where n = "length content"]) simp_all
next
  assume a: "N \<noteq> 0 \<and> length content < 2 ^ 53"
  from a statements_js_nonblank [of content] statements_js_length [of content]
  show "sqlToJson_js (new_converter (Some N)) content
          = emitted (run_statements processStatement_js (new_converter None)
                       (take (nat N) (statements_js content)))"
    unfolding sqlToJson_js_def processStatement_js_def
    by (intro run_fresh_limit [where n = "length content"]) simp_all
qed

text \<open>An instance of C7 with limit 2: a third statement is refused with only the
  counter changed, and the sample script of three statements emits the table of the
  first two, with the rows of the insert and without the effect of the second
  \<^verbatim>\<open>CREATE TABLE\<close>.\<close>

theorem statement_limit_stops_witness:
  "limit (sample_converter\<lparr>limit := Some 2\<rparr>) = Some 2 \<and> (2::int) \<noteq> 0
   \<and> trim ''COMMIT'' \<noteq> []
   \<and> processedStatements (sample_converter\<lparr>limit := Some 2\<rparr>) < 2 ^ 53
   \<and> 2 < js_incr (processedStatements (sample_converter\<lparr>limit := Some 2\<rparr>))
   \<and> processStatement_ts (sample_converter\<lparr>limit := Some 2\<rparr>) ''COMMIT''
       = Inr (sample_converter\<lparr>limit := Some 2, processedStatements := 3\<rparr>, Some False)
   \<and> length sample_script < 2 ^ 53
   \<and> sqlToJson_ts (new_converter (Some 2)) sample_script
       = Inr [(''t'',
               \<lparr>tableName = ''t'',
                columns = [\<lparr>col_name = ''a'', col_type = ''INT''\<rparr>,
                           \<lparr>col_name = ''b'', col_type = ''VARCHAR(10)''\<rparr>],
                data = [\<lparr>props = [(''a'', VInt 1), (''b'', VInt 2)], has_proto = True\<rparr>,
                        \<lparr>props = [(''a'', VInt 4)], has_proto = True\<rparr>]\<rparr>)]"
proof -
  let ?s = "sample_converter\<lparr>limit := Some 2\<rparr>"
  note t = statement_limit_stops
    [where s = ?s and N = 2 and sql = "''COMMIT''" and content = sample_script]
  have h1: "limit ?s = Some 2" by simp
  have h2: "trim ''COMMIT'' \<noteq> []" by code_simp
  have h0: "processedStatements ?s = 2" by (simp add: sample_converter_def)
  then have hb: "processedStatements ?s < 2 ^ 53" by simp
  with t have "js_incr (processedStatements ?s) = processedStatements ?s + 1" by blast
  with h0 have h3: "js_incr (processedStatements ?s) = 3" by simp
  have h4: "length sample_script < 2 ^ 53" by (simp add: sample_script_def)
  from t h1 h2 h3
  have "processStatement_ts ?s ''COMMIT''
          = Inr (?s\<lparr>processedStatements := js_incr (processedStatements ?s)\<rparr>, Some False)"
    by simp
  then have r1: "processStatement_ts ?s ''COMMIT''
          = Inr (sample_converter\<lparr>limit := Some 2, processedStatements := 3\<rparr>, Some False)"
    by (simp only: h3)
  from t h4
  have "sqlToJson_ts (new_converter (Some 2)) sample_script
          = emitted (run_statements processStatement_ts (new_converter None)
                       (take (nat 2) (loop_statements_ts sample_script)))"
    by simp
  moreover have "emitted (run_statements processStatement_ts (new_converter None)
                       (take (nat 2) (loop_statements_ts sample_script)))
       = Inr [(''t'',
               \<lparr>tableName = ''t'',
                columns = [\<lparr>col_name = ''a'', col_type = ''INT''\<rparr>,
                           \<lparr>col_name = ''b'', col_type = ''VARCHAR(10)''\<rparr>],
                data = [\<lparr>props = [(''a'', VInt 1), (''b'', VInt 2)], has_proto = True\<rparr>,
                        \<lparr>props = [(''a'', VInt 4)], has_proto = True\<rparr>]\<rparr>)]"
    by code_simp
  ultimately show ?thesis using h1 h2 hb h3 h4 r1 by simp
qed

section \<open>Blank statements\<close>

text \<open>C8 as worded fails on the counter: for the empty statement the TypeScript
  \<^verbatim>\<open>processStatement\<close> returns \<^verbatim>\<open>true\<close> with \<^verbatim>\<open>processedStatements\<close> still 0.\<close>

theorem empty_statement_counter_counterexample:
  "processStatement_ts (new_converter None) []
     = Inr (\<lparr>limit = None, processedStatements = 0, tables = [], tables_proto = None,
             currentTable = None, insideTransaction = False\<rparr>, Some True)"
  by code_simp

text \<open>
  C8, as the code has it: a statement that is empty after trimming returns at the
  emptiness test, which comes before the increment. The whole converter, the counter
  included, is unchanged in both implementations, and the TypeScript implementation
  returns \<^verbatim>\<open>true\<close>.
\<close>

theorem empty_statement_is_skipped:
  assumes "trim sql = []"
  shows "processStatement_ts s sql = Inr (s, Some True)
       \<and> (\<exists>r. processStatement_js s sql = Inr (s, r))"
  using processStatement_with_empty [OF assms]
  by (simp add: processStatement_ts_def processStatement_js_def)

text \<open>An instance of C8 with a statement of two blanks.\<close>

theorem empty_statement_is_skipped_witness:
  "trim ''  '' = []
   \<and> processStatement_ts sample_converter ''  '' = Inr (sample_converter, Some True)
   \<and> (\<exists>r. processStatement_js sample_converter ''  '' = Inr (sample_converter, r))"
proof -
  have h: "trim ''  '' = []" by code_simp
  from empty_statement_is_skipped [OF h, of sample_converter] h show ?thesis by simp
qed

section \<open>Rows only have keys of declared columns\<close>

lemma set_update_subset: "set (AList.update k v al) \<subseteq> insert (k, v) (set al)"
  by (induction al) auto

lemma row_keys_row_set: "row_keys (row_set obj k v) \<subseteq> insert k (row_keys obj)"
  by (auto simp: row_keys_def row_set_def dom_update)

lemma build_row_keys:
  "row_keys (build_row cols vals obj)
     \<subseteq> row_keys obj \<union> col_name ` set (take (length vals) cols)"
proof (induction cols vals obj rule: build_row.induct)
  case (1 vals obj)
  show ?case by simp
next
  case (2 col cols obj)
  then show ?case by simp
next
  case (3 col cols v vs obj)
  have "row_keys (row_set obj (col_name col) v) \<subseteq> insert (col_name col) (row_keys obj)"
    by (rule row_keys_row_set)
  with 3 show ?case by auto
qed

lemma build_row_present:
  "row_keys (build_row cols vals row_empty) \<subseteq> col_name ` set (take (length vals) cols)"
  using build_row_keys [of cols vals row_empty] by (simp add: row_keys_def row_empty_def)

lemma build_row_ok: "row_ok cols (build_row cols vals row_empty)"
proof -
  have "set (take (length vals) cols) \<subseteq> set cols" by (rule set_take_subset)
  with build_row_present [of cols vals] show ?thesis
    by (auto simp: row_ok_def)
qed

lemma push_records_ok: "table_ok t \<Longrightarrow> table_ok (push_records t records)"
proof (induction records arbitrary: t)
  case Nil
  then show ?case by (simp add: push_records_def)
next
  case (Cons r rs)
  let ?u = "t\<lparr>data := data t @ [build_row (columns t) r row_empty]\<rparr>"
  from Cons.prems have "table_ok ?u"
    by (auto simp: table_ok_def build_row_ok)
  then have "table_ok (push_records ?u rs)" by (rule Cons.IH)
  then show ?case by (simp add: push_records_def)
qed

lemma registry_inv_counted: "registry_inv (counted s) = registry_inv s"
  by (simp add: registry_inv_def counted_def)

lemma tables_get_OwnTable: "tables_get s n = OwnTable ti \<Longrightarrow> (n, ti) \<in> set (tables s)"
  by (auto simp: tables_get_def split: if_splits option.splits dest: map_of_SomeD)

lemma tables_get_ProtoTable: "tables_get s n = ProtoTable ti \<Longrightarrow> tables_proto s = Some ti"
  by (auto simp: tables_get_def split: if_splits option.splits)

lemma registry_inv_tables_set:
  "registry_inv s \<Longrightarrow> table_ok ti \<Longrightarrow> registry_inv ((tables_set s n ti)\<lparr>currentTable := c\<rparr>)"
  using set_update_subset [of n ti "tables s"]
  by (auto simp: registry_inv_def tables_set_def)

lemma registry_inv_update:
  "registry_inv s \<Longrightarrow> table_ok ti \<Longrightarrow>
   registry_inv (s\<lparr>tables := AList.update n ti (tables s)\<rparr>)"
  using set_update_subset [of n ti "tables s"]
  by (auto simp: registry_inv_def)

lemma registry_inv_proto:
  "registry_inv s \<Longrightarrow> table_ok ti \<Longrightarrow> registry_inv (s\<lparr>tables_proto := Some ti\<rparr>)"
  by (auto simp: registry_inv_def)

lemma registry_inv_step:
  assumes inv: "registry_inv s"
      and fresh: "\<And>sql ti. parseCT sql = Some ti \<Longrightarrow> data ti = []"
      and run: "processStatement_with parseCT er s x = Inr (s', r)"
  shows "registry_inv s'"
proof -
  let ?c = "counted s"
  have c: "registry_inv ?c" using inv by (simp add: registry_inv_counted)
  have flags: "\<And>b. registry_inv (?c\<lparr>insideTransaction := b\<rparr>)"
    using c by (simp add: registry_inv_def)
  note defs = processStatement_with_def Let_def counted_def [symmetric] table_ok_def
  show ?thesis
  proof (cases "parseInsertInto (trim x)")
    case None
    with run inv c flags fresh show ?thesis
      by (auto simp: defs intro!: registry_inv_tables_set split: if_splits option.splits)
  next
    case (Some ii)
    show ?thesis
    proof (cases "tables_get ?c (ins_tableName ii)")
      case Absent
      with Some run inv c flags fresh show ?thesis
        by (auto simp: defs intro!: registry_inv_tables_set split: if_splits option.splits)
    next
      case (OwnTable ti)
      then have "(ins_tableName ii, ti) \<in> set (tables ?c)" by (rule tables_get_OwnTable)
      with c have "table_ok ti" by (auto simp: registry_inv_def)
      then have "table_ok (push_records ti (ins_records ii))" by (rule push_records_ok)
      with c have "registry_inv (?c\<lparr>tables := AList.update (ins_tableName ii)
                      (push_records ti (ins_records ii)) (tables ?c)\<rparr>)"
        by (rule registry_inv_update)
      with OwnTable Some run inv c flags fresh show ?thesis
        by (auto simp: defs intro!: registry_inv_tables_set split: if_splits option.splits)
    next
      case (ProtoTable ti)
      then have "tables_proto ?c = Some ti" by (rule tables_get_ProtoTable)
      with c have "table_ok ti" by (auto simp: registry_inv_def)
      then have "table_ok (push_records ti (ins_records ii))" by (rule push_records_ok)
      with c have "registry_inv (?c\<lparr>tables_proto := Some (push_records ti (ins_records ii))\<rparr>)"
        by (rule registry_inv_proto)
      with ProtoTable Some run inv c flags fresh show ?thesis
        by (auto simp: defs intro!: registry_inv_tables_set split: if_splits option.splits)
    next
      case NonTable
      with Some run inv c flags fresh show ?thesis
        by (auto simp: defs intro!: registry_inv_tables_set split: if_splits option.splits)
    qed
  qed
qed

lemma registry_inv_run:
  assumes fresh: "\<And>sql ti. parseCT sql = Some ti \<Longrightarrow> data ti = []"
  shows "registry_inv s \<Longrightarrow>
         run_statements (processStatement_with parseCT er) s xs = Inr s' \<Longrightarrow> registry_inv s'"
proof (induction xs arbitrary: s)
  case Nil
  then show ?case by simp
next
  case (Cons x xs)
  show ?case
  proof (cases "processStatement_with parseCT er s x")
    case (Inl e)
    with Cons.prems show ?thesis by simp
  next
    case (Inr p)
    obtain s1 r where p: "p = (s1, r)" by (cases p)
    from Cons.prems(1) fresh Inr [unfolded p] have i: "registry_inv s1"
      by (rule registry_inv_step)
    show ?thesis
    proof (cases "r = Some True")
      case True
      with Cons.prems(2) Inr p have "run_statements (processStatement_with parseCT er) s1 xs = Inr s'"
        by simp
      with i show ?thesis by (rule Cons.IH)
    next
      case False
      with Cons.prems(2) Inr p have "s' = s1" by simp
      with i show ?thesis by simp
    qed
  qed
qed

lemma registry_inv_new: "registry_inv (new_converter lim)"
  by (simp add: registry_inv_def new_converter_def)

text \<open>The value at a position is stored under the name of the column at that
  position.\<close>

lemma props_row_set_other:
  "k \<noteq> n \<Longrightarrow> map_of (props (row_set obj n v)) k = map_of (props obj) k"
  by (simp add: row_set_def update_conv')

lemma props_row_set_same:
  "n \<noteq> ''__proto__'' \<Longrightarrow> map_of (props (row_set obj n v)) n = Some v"
  by (simp add: row_set_def update_conv')

lemma build_row_other:
  "k \<notin> col_name ` set (take (length vals) cols) \<Longrightarrow>
   map_of (props (build_row cols vals obj)) k = map_of (props obj) k"
proof (induction cols vals obj rule: build_row.induct)
  case (1 vals obj)
  show ?case by simp
next
  case (2 col cols obj)
  then show ?case by simp
next
  case (3 col cols v vs obj)
  then show ?case by (simp add: props_row_set_other)
qed

lemma build_row_lookup:
  assumes "i < length cols" and "i < length vals"
      and "col_name (cols ! i) \<noteq> ''__proto__''"
      and "col_name (cols ! i) \<notin> col_name ` set (drop (Suc i) (take (length vals) cols))"
  shows "map_of (props (build_row cols vals obj)) (col_name (cols ! i)) = Some (vals ! i)"
  using assms
proof (induction cols vals obj arbitrary: i rule: build_row.induct)
  case (1 vals obj)
  then show ?case by simp
next
  case (2 col cols obj)
  then show ?case by simp
next
  case (3 col cols v vs obj)
  show ?case
  proof (cases i)
    case 0
    with 3 show ?thesis
      by (simp add: build_row_other props_row_set_same)
  next
    case (Suc j)
    with "3.prems"
    have "map_of (props (build_row cols vs (row_set obj (col_name col) v))) (col_name (cols ! j))
            = Some (vs ! j)"
      by (intro "3.IH") simp_all
    with Suc show ?thesis by simp
  qed
qed

lemma build_row_extra:
  "build_row cols vals obj = build_row cols (take (length cols) vals) obj"
  by (induction cols vals obj rule: build_row.induct) simp_all

text \<open>
  C9: a fresh converter satisfies the invariant that every row of every table has only
  keys that are names of columns of that table, and every statement that returns, and
  so every run of statements, preserves it, in both implementations. A row is built
  by position: its keys are among the names of the columns for which the record has a
  value (nothing is filled in for the others), the value at position \<open>i\<close> is stored
  under the name of column \<open>i\<close> (when no later filled column has the same name, and
  the name is not \<^verbatim>\<open>__proto__\<close>, which JavaScript does not store as a key of a fresh
  object), and values beyond the number of columns change nothing.
\<close>

theorem rows_keyed_by_declared_columns:
  "registry_inv (new_converter lim)
   \<and> (registry_inv s \<and> processStatement_ts s sql = Inr (s', r) \<longrightarrow> registry_inv s')
   \<and> (registry_inv s \<and> processStatement_js s sql = Inr (s', r) \<longrightarrow> registry_inv s')
   \<and> (registry_inv s \<and> run_statements processStatement_ts s stmts = Inr s' \<longrightarrow> registry_inv s')
   \<and> (registry_inv s \<and> run_statements processStatement_js s stmts = Inr s' \<longrightarrow> registry_inv s')
   \<and> row_keys (build_row cols vals row_empty) \<subseteq> col_name ` set (take (length vals) cols)
   \<and> (i < length cols \<and> i < length vals \<and> col_name (cols ! i) \<noteq> ''__proto__''
        \<and> col_name (cols ! i) \<notin> col_name ` set (drop (Suc i) (take (length vals) cols))
      \<longrightarrow> map_of (props (build_row cols vals row_empty)) (col_name (cols ! i)) = Some (vals ! i))
   \<and> build_row cols vals row_empty = build_row cols (take (length cols) vals) row_empty"
proof -
  have a: "registry_inv s \<and> processStatement_ts s sql = Inr (s', r) \<longrightarrow> registry_inv s'"
  proof
    assume "registry_inv s \<and> processStatement_ts s sql = Inr (s', r)"
    then have i: "registry_inv s"
      and run: "processStatement_with parseCreateTable_ts (Some True) s sql = Inr (s', r)"
      by (simp_all add: processStatement_ts_def)
    from i _ run show "registry_inv s'"
      by (rule registry_inv_step) (rule parseCreateTable_ts_data)
  qed
  have b: "registry_inv s \<and> processStatement_js s sql = Inr (s', r) \<longrightarrow> registry_inv s'"
  proof
    assume "registry_inv s \<and> processStatement_js s sql = Inr (s', r)"
    then have i: "registry_inv s"
      and run: "processStatement_with parseCreateTable_js None s sql = Inr (s', r)"
      by (simp_all add: processStatement_js_def)
    from i _ run show "registry_inv s'"
      by (rule registry_inv_step) (rule parseCreateTable_js_data)
  qed
  have c: "registry_inv s \<and> run_statements processStatement_ts s stmts = Inr s' \<longrightarrow> registry_inv s'"
  proof
    assume "registry_inv s \<and> run_statements processStatement_ts s stmts = Inr s'"
    then have i: "registry_inv s"
      and run: "run_statements (processStatement_with parseCreateTable_ts (Some True)) s stmts = Inr s'"
      by (simp_all add: processStatement_ts_def)
    from _ i run show "registry_inv s'"
      by (rule registry_inv_run) (rule parseCreateTable_ts_data)
  qed
  have d: "registry_inv s \<and> run_statements processStatement_js s stmts = Inr s' \<longrightarrow> registry_inv s'"
  proof
    assume "registry_inv s \<and> run_statements processStatement_js s stmts = Inr s'"
    then have i: "registry_inv s"
      and run: "run_statements (processStatement_with parseCreateTable_js None) s stmts = Inr s'"
      by (simp_all add: processStatement_js_def)
    from _ i run show "registry_inv s'"
      by (rule registry_inv_run) (rule parseCreateTable_js_data)
  qed
  from a b c d registry_inv_new [of lim] build_row_present [of cols vals]
    build_row_lookup [of i cols vals row_empty] build_row_extra [of cols vals row_empty]
  show ?thesis by blast
qed

text \<open>An instance of C9: the sample converter satisfies the invariant; an insert of
  the records \<open>(1,2,3)\<close> and \<open>(4)\<close> into its two-column table appends the rows
  \<open>{a: 1, b: 2}\<close> and \<open>{a: 4}\<close>, in both implementations and as a run of one
  statement, and the invariant holds afterwards.\<close>

theorem rows_keyed_by_declared_columns_witness:
  "registry_inv sample_converter
   \<and> processStatement_ts sample_converter ''INSERT INTO t VALUES (1,2,3),(4)''
       = Inr (sample_converter
                \<lparr>processedStatements := 3,
                 tables := [(''t'', sample_table
                     \<lparr>data := data sample_table @
                        [\<lparr>props = [(''a'', VInt 1), (''b'', VInt 2)], has_proto = True\<rparr>,
                         \<lparr>props = [(''a'', VInt 4)], has_proto = True\<rparr>]\<rparr>)]\<rparr>, Some True)
   \<and> processStatement_js sample_converter ''INSERT INTO t VALUES (1,2,3),(4)''
       = Inr (sample_converter
                \<lparr>processedStatements := 3,
                 tables := [(''t'', sample_table
                     \<lparr>data := data sample_table @
                        [\<lparr>props = [(''a'', VInt 1), (''b'', VInt 2)], has_proto = True\<rparr>,
                         \<lparr>props = [(''a'', VInt 4)], has_proto = True\<rparr>]\<rparr>)]\<rparr>, Some True)
   \<and> run_statements processStatement_ts sample_converter [''INSERT INTO t VALUES (1,2,3),(4)'']
       = Inr (sample_converter
                \<lparr>processedStatements := 3,
                 tables := [(''t'', sample_table
                     \<lparr>data := data sample_table @
                        [\<lparr>props = [(''a'', VInt 1), (''b'', VInt 2)], has_proto = True\<rparr>,
                         \<lparr>props = [(''a'', VInt 4)], has_proto = True\<rparr>]\<rparr>)]\<rparr>)
   \<and> registry_inv (sample_converter
                \<lparr>processedStatements := 3,
                 tables := [(''t'', sample_table
                     \<lparr>data := data sample_table @
                        [\<lparr>props = [(''a'', VInt 1), (''b'', VInt 2)], has_proto = True\<rparr>,
                         \<lparr>props = [(''a'', VInt 4)], has_proto = True\<rparr>]\<rparr>)]\<rparr>)
   \<and> (0::nat) < length (columns sample_table) \<and> (0::nat) < length [VInt 4]
   \<and> map_of (props (build_row (columns sample_table) [VInt 4] row_empty)) ''a'' = Some (VInt 4)"
proof -
  let ?sql = "''INSERT INTO t VALUES (1,2,3),(4)''"
  let ?s' = "sample_converter
                \<lparr>processedStatements := 3,
                 tables := [(''t'', sample_table
                     \<lparr>data := data sample_table @
                        [\<lparr>props = [(''a'', VInt 1), (''b'', VInt 2)], has_proto = True\<rparr>,
                         \<lparr>props = [(''a'', VInt 4)], has_proto = True\<rparr>]\<rparr>)]\<rparr>"
  note t = rows_keyed_by_declared_columns
    [where s = sample_converter and sql = ?sql and stmts = "[?sql]"
       and s' = ?s' and r = "Some True" and cols = "columns sample_table"
       and vals = "[VInt 4]" and i = 0]
  have h1: "registry_inv sample_converter"
    by (simp add: registry_inv_def table_ok_def row_ok_def row_keys_def
        sample_converter_def sample_table_def)
  have h2: "processStatement_ts sample_converter ?sql = Inr (?s', Some True)"
    by code_simp
  have h2j: "processStatement_js sample_converter ?sql = Inr (?s', Some True)"
    by code_simp
  have h2r: "run_statements processStatement_ts sample_converter [?sql] = Inr ?s'"
    by (simp add: h2)
  from t h1 h2 have h3: "registry_inv ?s'" by blast
  from t h1 h2j have "registry_inv ?s'" by blast
  from t h1 h2r have "registry_inv ?s'" by blast
  have h4: "(0::nat) < length (columns sample_table)" "(0::nat) < length [VInt 4]"
    "col_name (columns sample_table ! 0) = ''a''"
    "col_name (columns sample_table ! 0) \<noteq> ''__proto__''"
    "col_name (columns sample_table ! 0)
       \<notin> col_name ` set (drop (Suc 0) (take (length [VInt 4]) (columns sample_table)))"
    by (simp_all add: sample_table_def)
  from t h4 have "map_of (props (build_row (columns sample_table) [VInt 4] row_empty))
      (col_name (columns sample_table ! 0)) = Some ([VInt 4] ! 0)" by blast
  then have h5: "map_of (props (build_row (columns sample_table) [VInt 4] row_empty)) ''a''
      = Some (VInt 4)" by (simp only: h4(3)) simp
  from h1 h2 h2j h2r h3 h4(1,2) h5 show ?thesis by blast
qed

end
